theory Spec2Isabelle
  imports Complex_Main "HOL-Library.Word" "HOL-Library.AList"
begin

section \<open>Data model (internal/model/event.go)\<close>

text \<open>
  Go's fixed-width unsigned integers are words. A \<open>time.Time\<close> is modelled by the instant
  it denotes, as an unbounded count of nanoseconds since the Unix epoch (the type covers
  years far outside what 64 bits of nanoseconds can hold; its zero value is year 1).
\<close>

record Endpoint =
  ep_IP :: string
  ep_Port :: "16 word"
  ep_Pod :: string
  ep_Namespace :: string
  ep_Workload :: string
  ep_WorkloadType :: string
  ep_Service :: string

record ConnectionEvent =
  ce_Timestamp :: int
  ce_Node :: string
  ce_Source :: Endpoint
  ce_Destination :: Endpoint
  ce_BytesSent :: "64 word"
  ce_BytesRecv :: "64 word"
  ce_DurationNs :: "64 word"
  ce_Retransmits :: "32 word"
  ce_Protocol :: string

record HTTPRequestEvent =
  he_Timestamp :: int
  he_Node :: string
  he_Source :: Endpoint
  he_Destination :: Endpoint
  he_Method :: string
  he_Path :: string
  he_StatusCode :: "16 word"
  he_LatencyNs :: "64 word"
  he_Protocol :: string

record DependencyLink =
  dl_Parent :: string
  dl_Child :: string
  dl_CallCount :: "64 word"
  dl_ErrorCount :: "64 word"
  dl_P99LatencyNs :: "64 word"

text \<open>
  The exporter's queue holds \<open>interface{}\<close> values; the type switch in \<open>flush\<close> knows
  connection events, HTTP request events, and everything else.
\<close>

datatype event = ConnEv ConnectionEvent | HttpEv HTTPRequestEvent | OtherEv nat

text \<open>Run-time panics of the Go code that the modelled functions can reach.\<close>

datatype go_panic = SliceBoundsOutOfRange | IndexOutOfRange | MakeSliceLenOutOfRange

section \<open>Export client (internal/agent/exporter/grpc.go)\<close>

subsection \<open>Wire structs\<close>

record EndpointProto =
  epp_IP :: string
  epp_Port :: "32 word"
  epp_Pod :: string
  epp_Namespace :: string
  epp_Workload :: string
  epp_WorkloadType :: string
  epp_Service :: string

text \<open>The \<open>*EndpointProto\<close> fields are pointers: \<open>None\<close> is \<open>nil\<close>.\<close>

record ConnectionEventProto =
  cep_TimestampNs :: "64 word"
  cep_Node :: string
  cep_Source :: "EndpointProto option"
  cep_Destination :: "EndpointProto option"
  cep_BytesSent :: "64 word"
  cep_BytesRecv :: "64 word"
  cep_DurationNs :: "64 word"
  cep_Retransmits :: "32 word"
  cep_Protocol :: string

record HTTPRequestEventProto =
  hep_TimestampNs :: "64 word"
  hep_Node :: string
  hep_Source :: "EndpointProto option"
  hep_Destination :: "EndpointProto option"
  hep_Method :: string
  hep_Path :: string
  hep_StatusCode :: "32 word"
  hep_LatencyNs :: "64 word"
  hep_Protocol :: string

record EventBatchProto =
  ebp_Node :: string
  ebp_Connections :: "ConnectionEventProto list"
  ebp_HttpRequests :: "HTTPRequestEventProto list"

subsection \<open>Exporter state\<close>

text \<open>
  The fields of \<open>Exporter\<close> that the queue operations read or write. \<open>batchSize\<close> and
  \<open>queueLimit\<close> are Go \<open>int\<close>s. The logger is the list of messages it was given.
  \<open>stream\<close> is the client stream: \<open>None\<close> is \<open>nil\<close>, otherwise the outcome of
  \<open>Send\<close> on a batch (\<open>None\<close> for success, \<open>Some err\<close> for an error).
\<close>

record Exporter =
  logger :: "string list"
  addr :: string
  nodeName :: string
  queue :: "event list"
  stream :: "(EventBatchProto \<Rightarrow> string option) option"
  batchSize :: int
  queueLimit :: int

definition defaultBatchSize :: int where
  "defaultBatchSize = 100"

definition defaultQueueLimit :: int where
  "defaultQueueLimit = 10000"

definition NewExporter :: "string \<Rightarrow> string \<Rightarrow> Exporter" where
  "NewExporter serverAddr node =
     \<lparr>logger = [], addr = serverAddr, nodeName = node, queue = [], stream = None,
      batchSize = defaultBatchSize, queueLimit = defaultQueueLimit\<rparr>"

text \<open>
  \<open>Enqueue\<close>: when the queue is at (or over) the limit, \<open>e.queue[1:]\<close> drops the head and a
  warning is logged; then the event is appended. Slicing \<open>[1:]\<close> an empty queue panics.
\<close>

definition Enqueue :: "event \<Rightarrow> Exporter \<Rightarrow> go_panic + Exporter" where
  "Enqueue evt e =
     (if int (length (queue e)) \<ge> queueLimit e then
        (if length (queue e) < 1 then Inl SliceBoundsOutOfRange
         else Inr (e\<lparr>queue := drop 1 (queue e) @ [evt],
                      logger := logger e @ [''event queue full, dropping oldest event'']\<rparr>))
      else Inr (e\<lparr>queue := queue e @ [evt]\<rparr>))"

text \<open>A stream of calls to \<open>Enqueue\<close>, in order; a panic ends it.\<close>

fun EnqueueAll :: "event list \<Rightarrow> Exporter \<Rightarrow> go_panic + Exporter" where
  "EnqueueAll [] e = Inr e"
| "EnqueueAll (x # xs) e =
     (case Enqueue x e of Inl p \<Rightarrow> Inl p | Inr e' \<Rightarrow> EnqueueAll xs e')"

text \<open>The number of drop warnings the logger has received.\<close>

definition dropCount :: "Exporter \<Rightarrow> nat" where
  "dropCount e = length (filter (\<lambda>m. m = ''event queue full, dropping oldest event'') (logger e))"

subsection \<open>Model to wire conversion\<close>

text \<open>
  \<open>Time.UnixNano\<close> returns an \<open>int64\<close>: the nanoseconds since the epoch, wrapped to 64 bits
  when they do not fit (Go documents the result as undefined there; the implementation
  multiplies and adds in \<open>int64\<close>). The 64-bit pattern is kept as a word, read signed.
\<close>

definition UnixNano :: "int \<Rightarrow> 64 word" where
  "UnixNano t = word_of_int t"

definition endpointToProto :: "Endpoint \<Rightarrow> EndpointProto" where
  "endpointToProto ep =
     \<lparr>epp_IP = ep_IP ep, epp_Port = ucast (ep_Port ep), epp_Pod = ep_Pod ep,
      epp_Namespace = ep_Namespace ep, epp_Workload = ep_Workload ep,
      epp_WorkloadType = ep_WorkloadType ep, epp_Service = ep_Service ep\<rparr>"

definition connectionEventToProto :: "ConnectionEvent \<Rightarrow> ConnectionEventProto" where
  "connectionEventToProto ce =
     \<lparr>cep_TimestampNs = UnixNano (ce_Timestamp ce), cep_Node = ce_Node ce,
      cep_Source = Some (endpointToProto (ce_Source ce)),
      cep_Destination = Some (endpointToProto (ce_Destination ce)),
      cep_BytesSent = ce_BytesSent ce, cep_BytesRecv = ce_BytesRecv ce,
      cep_DurationNs = ce_DurationNs ce, cep_Retransmits = ce_Retransmits ce,
      cep_Protocol = ce_Protocol ce\<rparr>"

definition httpRequestEventToProto :: "HTTPRequestEvent \<Rightarrow> HTTPRequestEventProto" where
  "httpRequestEventToProto he =
     \<lparr>hep_TimestampNs = UnixNano (he_Timestamp he), hep_Node = he_Node he,
      hep_Source = Some (endpointToProto (he_Source he)),
      hep_Destination = Some (endpointToProto (he_Destination he)),
      hep_Method = he_Method he, hep_Path = he_Path he,
      hep_StatusCode = ucast (he_StatusCode he), hep_LatencyNs = he_LatencyNs he,
      hep_Protocol = he_Protocol he\<rparr>"

subsection \<open>flush\<close>

text \<open>The type switch of the batch-building loop, one event at a time.\<close>

fun addToBatch :: "EventBatchProto \<times> string list \<Rightarrow> event \<Rightarrow> EventBatchProto \<times> string list" where
  "addToBatch (pb, lg) (ConnEv v) =
     (pb\<lparr>ebp_Connections := ebp_Connections pb @ [connectionEventToProto v]\<rparr>, lg)"
| "addToBatch (pb, lg) (HttpEv v) =
     (pb\<lparr>ebp_HttpRequests := ebp_HttpRequests pb @ [httpRequestEventToProto v]\<rparr>, lg)"
| "addToBatch (pb, lg) (OtherEv x) = (pb, lg @ [''unknown event type in queue''])"

text \<open>
  \<open>remaining[len(remaining)-e.queueLimit:]\<close>, taken when the re-queued events exceed the
  limit: the low bound is positive there, and above the length when the limit is negative.
\<close>

definition truncateToLimit :: "event list \<Rightarrow> int \<Rightarrow> go_panic + event list" where
  "truncateToLimit remaining limit =
     (if int (length remaining) > limit then
        (if int (length remaining) - limit > int (length remaining) then Inl SliceBoundsOutOfRange
         else Inr (drop (nat (int (length remaining) - limit)) remaining))
      else Inr remaining)"

text \<open>
  \<open>flush\<close> holds the lock twice: to take the batch off the queue, and, when \<open>Send\<close> fails, to
  put it back. \<open>meanwhile\<close> are the events other goroutines enqueue between the two. The
  result is the returned error (\<open>None\<close> is \<open>nil\<close>) and the exporter afterwards.
\<close>

definition flush :: "event list \<Rightarrow> Exporter \<Rightarrow> go_panic + (string option \<times> Exporter)" where
  "flush meanwhile e =
     (if length (queue e) = 0 then Inr (None, e)
      else
        let n = (if batchSize e > int (length (queue e)) then int (length (queue e))
                 else batchSize e)
        in if n < 0 then Inl MakeSliceLenOutOfRange
        else
          let batch = take (nat n) (queue e);
              e1 = e\<lparr>queue := drop (nat n) (queue e)\<rparr>
          in case EnqueueAll meanwhile e1 of
               Inl p \<Rightarrow> Inl p
             | Inr e2 \<Rightarrow>
                 let (pbBatch, lg) =
                       foldl addToBatch
                         (\<lparr>ebp_Node = nodeName e2, ebp_Connections = [], ebp_HttpRequests = []\<rparr>,
                          logger e2) batch;
                     e3 = e2\<lparr>logger := lg\<rparr>
                 in case stream e3 of
                      None \<Rightarrow>
                        Inr (None, e3\<lparr>logger := logger e3 @
                                      [''no active gRPC stream, batch buffered locally'']\<rparr>)
                    | Some send \<Rightarrow>
                        (case send pbBatch of
                           Some err \<Rightarrow>
                             (case truncateToLimit (batch @ queue e3) (queueLimit e3) of
                                Inl p \<Rightarrow> Inl p
                              | Inr remaining \<Rightarrow>
                                  Inr (Some (''stream send: '' @ err), e3\<lparr>queue := remaining\<rparr>))
                         | None \<Rightarrow>
                             Inr (None, e3\<lparr>logger := logger e3 @ [''flushed event batch'']\<rparr>)))"

text \<open>The batch message \<open>flush\<close> builds from the events it took, as handed to \<open>Send\<close>.\<close>

definition buildBatch :: "string \<Rightarrow> event list \<Rightarrow> EventBatchProto" where
  "buildBatch node batch =
     fst (foldl addToBatch
            (\<lparr>ebp_Node = node, ebp_Connections = [], ebp_HttpRequests = []\<rparr>, []) batch)"

text \<open>A stream whose every \<open>Send\<close> fails.\<close>

definition brokenStream :: "EventBatchProto \<Rightarrow> string option" where
  "brokenStream b = Some ''EOF''"

section \<open>Ingestion server: wire to model conversion\<close>

text \<open>
  The server declares the same messages as the exporter (both mirror the one proto file, and
  the generated codec is not part of the repository): the model shares the records, and a
  batch arrives as it was sent.
\<close>

type_synonym EventBatch = EventBatchProto

text \<open>\<open>time.Unix(0, ns)\<close>: the instant \<open>ns\<close> nanoseconds after the epoch, \<open>ns\<close> an \<open>int64\<close>.\<close>

definition time_Unix0 :: "64 word \<Rightarrow> int" where
  "time_Unix0 ns = sint ns"

definition emptyEndpoint :: Endpoint where
  "emptyEndpoint =
     \<lparr>ep_IP = [], ep_Port = 0, ep_Pod = [], ep_Namespace = [], ep_Workload = [],
      ep_WorkloadType = [], ep_Service = []\<rparr>"

definition protoToEndpoint :: "EndpointProto option \<Rightarrow> Endpoint" where
  "protoToEndpoint p =
     (case p of
        None \<Rightarrow> emptyEndpoint
      | Some ep \<Rightarrow>
          \<lparr>ep_IP = epp_IP ep, ep_Port = ucast (epp_Port ep), ep_Pod = epp_Pod ep,
           ep_Namespace = epp_Namespace ep, ep_Workload = epp_Workload ep,
           ep_WorkloadType = epp_WorkloadType ep, ep_Service = epp_Service ep\<rparr>)"

definition protoToConnectionEvent :: "ConnectionEventProto \<Rightarrow> string \<Rightarrow> ConnectionEvent" where
  "protoToConnectionEvent c node =
     (let n = (if cep_Node c = [] then node else cep_Node c)
      in \<lparr>ce_Timestamp = time_Unix0 (cep_TimestampNs c), ce_Node = n,
          ce_Source = protoToEndpoint (cep_Source c),
          ce_Destination = protoToEndpoint (cep_Destination c),
          ce_BytesSent = cep_BytesSent c, ce_BytesRecv = cep_BytesRecv c,
          ce_DurationNs = cep_DurationNs c, ce_Retransmits = cep_Retransmits c,
          ce_Protocol = cep_Protocol c\<rparr>)"

definition protoToHTTPRequestEvent :: "HTTPRequestEventProto \<Rightarrow> string \<Rightarrow> HTTPRequestEvent" where
  "protoToHTTPRequestEvent r node =
     (let n = (if hep_Node r = [] then node else hep_Node r)
      in \<lparr>he_Timestamp = time_Unix0 (hep_TimestampNs r), he_Node = n,
          he_Source = protoToEndpoint (hep_Source r),
          he_Destination = protoToEndpoint (hep_Destination r),
          he_Method = hep_Method r, he_Path = hep_Path r,
          he_StatusCode = ucast (hep_StatusCode r), he_LatencyNs = hep_LatencyNs r,
          he_Protocol = hep_Protocol r\<rparr>)"

section \<open>Example inputs\<close>

definition sampleEndpoint :: "string \<Rightarrow> Endpoint" where
  "sampleEndpoint svc = emptyEndpoint\<lparr>ep_IP := ''10.0.0.5'', ep_Port := 8080, ep_Service := svc\<rparr>"

definition sampleConn :: "string \<Rightarrow> string \<Rightarrow> 64 word \<Rightarrow> ConnectionEvent" where
  "sampleConn src dst d =
     \<lparr>ce_Timestamp = 1700000000000000000, ce_Node = [], ce_Source = sampleEndpoint src,
      ce_Destination = sampleEndpoint dst, ce_BytesSent = 10, ce_BytesRecv = 20,
      ce_DurationNs = d, ce_Retransmits = 0, ce_Protocol = ''TCP''\<rparr>"

definition sampleReq :: "string \<Rightarrow> string \<Rightarrow> 16 word \<Rightarrow> 64 word \<Rightarrow> HTTPRequestEvent" where
  "sampleReq src dst status lat =
     \<lparr>he_Timestamp = 1700000000000000000, he_Node = [], he_Source = sampleEndpoint src,
      he_Destination = sampleEndpoint dst, he_Method = ''GET'', he_Path = ''/'',
      he_StatusCode = status, he_LatencyNs = lat, he_Protocol = ''HTTP''\<rparr>"

text \<open>
  An exporter with room for two events, a batch size of two, two queued events and a stream
  on which every send fails.
\<close>

definition smallExporter :: Exporter where
  "smallExporter =
     (NewExporter ''srv'' ''n1'')\<lparr>stream := Some brokenStream, batchSize := 2, queueLimit := 2,
        queue := [ConnEv (sampleConn ''a'' ''b'' 1), ConnEv (sampleConn ''a'' ''b'' 2)]\<rparr>"

text \<open>
  A connection event carrying Go's zero \<open>time.Time\<close>, January 1 of year 1, which is
  62135596800 seconds before the Unix epoch.
\<close>

definition zeroTimeEvent :: ConnectionEvent where
  "zeroTimeEvent = (sampleConn ''a'' ''b'' 1)\<lparr>ce_Timestamp := - 62135596800000000000\<rparr>"

section \<open>Aggregator (internal/server/metrics/aggregator.go)\<close>

text \<open>
  \<open>float64\<close> values are modelled as real numbers: sums, products and quotients are exact
  here and rounded there. Comparisons, which decide the bucket of a sample, are the same.
\<close>

definition defaultBucketBoundaries :: "real list" where
  "defaultBucketBoundaries =
     [1000000, 5000000, 10000000, 25000000, 50000000, 100000000, 250000000, 500000000,
      1000000000, 2500000000, 5000000000, 10000000000]"

text \<open>
  Per-service metrics. The \<open>lastObserved\<close> stamp, set from the wall clock on every
  observation and read nowhere, is left out.
\<close>

record serviceMetrics =
  sm_namespace :: string
  latencyCounts :: "64 word list"
  latencySum :: real
  callCount :: "64 word"
  errorCount :: "64 word"
  bytesSent :: "64 word"
  bytesRecv :: "64 word"

record Aggregator =
  buckets :: "real list"
  services :: "string \<rightharpoonup> serviceMetrics"

definition NewAggregator :: Aggregator where
  "NewAggregator = \<lparr>buckets = defaultBucketBoundaries, services = Map.empty\<rparr>"

text \<open>\<open>getOrCreate\<close> returns the service's metrics and the map holding them.\<close>

definition getOrCreate :: "Aggregator \<Rightarrow> string \<Rightarrow> string \<Rightarrow> serviceMetrics \<times> Aggregator" where
  "getOrCreate a service namespace =
     (case services a service of
        Some sm \<Rightarrow> (sm, a)
      | None \<Rightarrow>
          (let sm = \<lparr>sm_namespace = namespace,
                      latencyCounts = replicate (length (buckets a) + 1) 0,
                      latencySum = 0, callCount = 0, errorCount = 0, bytesSent = 0,
                      bytesRecv = 0\<rparr>
           in (sm, a\<lparr>services := (services a)(service \<mapsto> sm)\<rparr>)))"

text \<open>
  The loop of \<open>observeLatency\<close> over the boundaries: the index of the first boundary the
  sample does not exceed, when there is one (\<open>inserted\<close>).
\<close>

fun findBucket :: "real list \<Rightarrow> real \<Rightarrow> nat \<Rightarrow> nat option" where
  "findBucket [] latencyNs i = None"
| "findBucket (boundary # rest) latencyNs i =
     (if latencyNs \<le> boundary then Some i else findBucket rest latencyNs (i + 1))"

text \<open>\<open>counts[i]++\<close>; an index outside the slice panics.\<close>

definition incrementAt :: "64 word list \<Rightarrow> nat \<Rightarrow> go_panic + 64 word list" where
  "incrementAt counts i =
     (if i < length counts then Inr (counts[i := counts ! i + 1]) else Inl IndexOutOfRange)"

definition observeLatency :: "real list \<Rightarrow> serviceMetrics \<Rightarrow> real \<Rightarrow> go_panic + serviceMetrics" where
  "observeLatency bs sm latencyNs =
     (let sm1 = sm\<lparr>latencySum := latencySum sm + latencyNs\<rparr>;
          i = (case findBucket bs latencyNs 0 of Some i \<Rightarrow> i | None \<Rightarrow> length bs)
      in case incrementAt (latencyCounts sm1) i of
           Inl p \<Rightarrow> Inl p
         | Inr counts \<Rightarrow> Inr (sm1\<lparr>latencyCounts := counts\<rparr>))"

definition ObserveConnection :: "Aggregator \<Rightarrow> ConnectionEvent \<Rightarrow> go_panic + Aggregator" where
  "ObserveConnection a ev =
     (let svc0 = ep_Service (ce_Source ev);
          svc = (if svc0 = [] then ep_Service (ce_Destination ev) else svc0)
      in if svc = [] then Inr a
         else
           let (sm, a1) = getOrCreate a svc (ep_Namespace (ce_Source ev));
               sm1 = sm\<lparr>callCount := callCount sm + 1,
                        bytesSent := bytesSent sm + ce_BytesSent ev,
                        bytesRecv := bytesRecv sm + ce_BytesRecv ev\<rparr>
           in if ce_DurationNs ev > 0 then
                (case observeLatency (buckets a1) sm1 (real (unat (ce_DurationNs ev))) of
                   Inl p \<Rightarrow> Inl p
                 | Inr sm2 \<Rightarrow> Inr (a1\<lparr>services := (services a1)(svc \<mapsto> sm2)\<rparr>))
              else Inr (a1\<lparr>services := (services a1)(svc \<mapsto> sm1)\<rparr>))"

definition ObserveHTTPRequest :: "Aggregator \<Rightarrow> HTTPRequestEvent \<Rightarrow> go_panic + Aggregator" where
  "ObserveHTTPRequest a ev =
     (let svc0 = ep_Service (he_Destination ev);
          svc = (if svc0 = [] then ep_Service (he_Source ev) else svc0)
      in if svc = [] then Inr a
         else
           let (sm, a1) = getOrCreate a svc (ep_Namespace (he_Destination ev));
               sm1 = sm\<lparr>callCount := callCount sm + 1\<rparr>;
               sm2 = (if he_StatusCode ev \<ge> 500 then sm1\<lparr>errorCount := errorCount sm1 + 1\<rparr>
                      else sm1)
           in if he_LatencyNs ev > 0 then
                (case observeLatency (buckets a1) sm2 (real (unat (he_LatencyNs ev))) of
                   Inl p \<Rightarrow> Inl p
                 | Inr sm3 \<Rightarrow> Inr (a1\<lparr>services := (services a1)(svc \<mapsto> sm3)\<rparr>))
              else Inr (a1\<lparr>services := (services a1)(svc \<mapsto> sm2)\<rparr>))"

text \<open>A sequence of latency observations on one service's metrics; a panic ends it.\<close>

fun observeAll :: "real list \<Rightarrow> serviceMetrics \<Rightarrow> real list \<Rightarrow> go_panic + serviceMetrics" where
  "observeAll bs sm [] = Inr sm"
| "observeAll bs sm (x # xs) =
     (case observeLatency bs sm x of Inl p \<Rightarrow> Inl p | Inr sm' \<Rightarrow> observeAll bs sm' xs)"

text \<open>The metrics \<open>getOrCreate\<close> makes for a service it has not seen.\<close>

definition freshMetrics :: "real list \<Rightarrow> string \<Rightarrow> serviceMetrics" where
  "freshMetrics bs namespace =
     \<lparr>sm_namespace = namespace, latencyCounts = replicate (length bs + 1) 0,
      latencySum = 0, callCount = 0, errorCount = 0, bytesSent = 0, bytesRecv = 0\<rparr>"

subsection \<open>float64 arithmetic\<close>




subsection \<open>Histogram helpers\<close>

definition totalHistogramCount :: "64 word list \<Rightarrow> 64 word" where
  "totalHistogramCount counts = foldl (\<lambda>t c. t + c) 0 counts"



section \<open>Dependency computer\<close>

record linkAccumulator =
  la_parent :: string
  la_child :: string
  la_callCount :: "64 word"
  la_errorCount :: "64 word"
  la_latencies :: "64 word list"

text \<open>
  The accumulators are a Go map keyed by \<open>parent->child\<close>. The model keeps it as an
  association list with one entry per key, in order of first insertion; Go iterates a map in
  no fixed order, so the order of the links built from it is one of the possible ones.
\<close>

type_synonym deps = "(string \<times> linkAccumulator) list"

definition addConnectionEvent :: "deps \<Rightarrow> ConnectionEvent \<Rightarrow> deps" where
  "addConnectionEvent ds ev =
     (let src = ep_Service (ce_Source ev); dst = ep_Service (ce_Destination ev)
      in if src = [] \<or> dst = [] \<or> src = dst then ds
         else
           let key = src @ ''->'' @ dst;
               acc = (case map_of ds key of
                        Some acc \<Rightarrow> acc
                      | None \<Rightarrow> \<lparr>la_parent = src, la_child = dst, la_callCount = 0,
                                  la_errorCount = 0, la_latencies = []\<rparr>);
               acc1 = acc\<lparr>la_callCount := la_callCount acc + 1\<rparr>;
               acc2 = (if ce_DurationNs ev > 0
                       then acc1\<lparr>la_latencies := la_latencies acc1 @ [ce_DurationNs ev]\<rparr>
                       else acc1)
           in AList.update key acc2 ds)"

definition addHTTPRequestEvent :: "deps \<Rightarrow> HTTPRequestEvent \<Rightarrow> deps" where
  "addHTTPRequestEvent ds ev =
     (let src = ep_Service (he_Source ev); dst = ep_Service (he_Destination ev)
      in if src = [] \<or> dst = [] \<or> src = dst then ds
         else
           let key = src @ ''->'' @ dst;
               acc = (case map_of ds key of
                        Some acc \<Rightarrow> acc
                      | None \<Rightarrow> \<lparr>la_parent = src, la_child = dst, la_callCount = 0,
                                  la_errorCount = 0, la_latencies = []\<rparr>);
               acc1 = acc\<lparr>la_callCount := la_callCount acc + 1\<rparr>;
               acc2 = (if he_StatusCode ev \<ge> 500
                       then acc1\<lparr>la_errorCount := la_errorCount acc1 + 1\<rparr> else acc1);
               acc3 = (if he_LatencyNs ev > 0
                       then acc2\<lparr>la_latencies := la_latencies acc2 @ [he_LatencyNs ev]\<rparr>
                       else acc2)
           in AList.update key acc3 ds)"

text \<open>
  \<open>computeP99\<close>. The index is \<open>int(float64(n)*0.99+0.5) - 1\<close>: the conversion to \<open>int\<close>
  truncates, which on this non-negative value is the floor. The product and the sum are
  taken exactly here.
\<close>

definition computeP99 :: "64 word list \<Rightarrow> 64 word" where
  "computeP99 latencies =
     (let n = length latencies
      in if n = 0 then 0
         else
           let sorted_l = sort latencies;
               idx = \<lfloor>real n * (99 / 100) + 1 / 2\<rfloor> - 1;
               idx1 = (if idx < 0 then 0 else idx);
               idx2 = (if idx1 \<ge> int n then int n - 1 else idx1)
           in sorted_l ! nat idx2)"

definition buildLinks :: "deps \<Rightarrow> DependencyLink list" where
  "buildLinks ds =
     map (\<lambda>(key, acc).
            \<lparr>dl_Parent = la_parent acc, dl_Child = la_child acc,
             dl_CallCount = la_callCount acc, dl_ErrorCount = la_errorCount acc,
             dl_P99LatencyNs = computeP99 (la_latencies acc)\<rparr>) ds"

text \<open>
  One cycle of \<open>compute\<close>, given what the two reads returned (\<open>Inl\<close> is a read error, which
  is logged and skips that kind of event): the links built, which are handed to the writer
  when there are any.
\<close>

definition compute :: "string + ConnectionEvent list \<Rightarrow> string + HTTPRequestEvent list
    \<Rightarrow> DependencyLink list" where
  "compute connsResult reqsResult =
     (let deps0 = [];
          deps1 = (case connsResult of
                     Inl err \<Rightarrow> deps0
                   | Inr conns \<Rightarrow> foldl addConnectionEvent deps0 conns);
          deps2 = (case reqsResult of
                     Inl err \<Rightarrow> deps1
                   | Inr reqs \<Rightarrow> foldl addHTTPRequestEvent deps1 reqs)
      in buildLinks deps2)"

text \<open>The index the comment in \<open>computeP99\<close> describes: \<open>ceil(0.99 * n) - 1\<close>, clamped.\<close>

definition ceilP99Index :: "nat \<Rightarrow> nat" where
  "ceilP99Index n =
     (let idx = \<lceil>real n * (99 / 100)\<rceil> - 1;
          idx1 = (if idx < 0 then 0 else idx);
          idx2 = (if idx1 \<ge> int n then int n - 1 else idx1)
      in nat idx2)"

text \<open>Every accumulator is an edge: parent and child are named and differ.\<close>

definition validEdges :: "deps \<Rightarrow> bool" where
  "validEdges ds =
     (\<forall>(key, acc) \<in> set ds.
        la_parent acc \<noteq> [] \<and> la_child acc \<noteq> [] \<and> la_parent acc \<noteq> la_child acc)"

section \<open>Ingestion server: processing a stream of batches\<close>

text \<open>
  The storage writer is an interface: its two methods take the store's state and the events
  and return the error (\<open>None\<close> is \<open>nil\<close>) and the store afterwards.
\<close>

record 'w EventWriter =
  WriteConnectionEvents :: "'w \<Rightarrow> ConnectionEvent list \<Rightarrow> string option \<times> 'w"
  WriteHTTPRequestEvents :: "'w \<Rightarrow> HTTPRequestEvent list \<Rightarrow> string option \<times> 'w"

record 'w IngestionServer =
  store :: "'w"
  aggregator :: Aggregator
  srv_logger :: "string list"
  accepted :: "64 word"

fun observeConnections :: "Aggregator \<Rightarrow> ConnectionEvent list \<Rightarrow> go_panic + Aggregator" where
  "observeConnections a [] = Inr a"
| "observeConnections a (c # cs) =
     (case ObserveConnection a c of Inl p \<Rightarrow> Inl p | Inr a' \<Rightarrow> observeConnections a' cs)"

fun observeHTTPRequests :: "Aggregator \<Rightarrow> HTTPRequestEvent list \<Rightarrow> go_panic + Aggregator" where
  "observeHTTPRequests a [] = Inr a"
| "observeHTTPRequests a (r # rs) =
     (case ObserveHTTPRequest a r of Inl p \<Rightarrow> Inl p | Inr a' \<Rightarrow> observeHTTPRequests a' rs)"

text \<open>The conversion loops of \<open>processBatch\<close>: the events of a batch, decoded.\<close>

definition decodeConnections :: "EventBatch \<Rightarrow> ConnectionEvent list" where
  "decodeConnections batch =
     map (\<lambda>c. protoToConnectionEvent c (ebp_Node batch)) (ebp_Connections batch)"

definition decodeRequests :: "EventBatch \<Rightarrow> HTTPRequestEvent list" where
  "decodeRequests batch =
     map (\<lambda>r. protoToHTTPRequestEvent r (ebp_Node batch)) (ebp_HttpRequests batch)"

text \<open>
  The two halves of \<open>processBatch\<close>. Each returns the error that makes \<open>processBatch\<close>
  return early (\<open>None\<close> when it goes on), the accepted count so far, and the server.
\<close>

definition processConnections :: "'w EventWriter \<Rightarrow> 'w IngestionServer \<Rightarrow> EventBatch \<Rightarrow> 64 word
    \<Rightarrow> go_panic + (string option \<times> 64 word \<times> 'w IngestionServer)" where
  "processConnections W s batch acc =
     (if length (ebp_Connections batch) > 0 then
        (let conns = decodeConnections batch
         in case WriteConnectionEvents W (store s) conns of
              (Some err, w) \<Rightarrow> Inr (Some err, acc, s\<lparr>store := w\<rparr>)
            | (None, w) \<Rightarrow>
                (case observeConnections (aggregator s) conns of
                   Inl p \<Rightarrow> Inl p
                 | Inr a \<Rightarrow>
                     Inr (None, acc + of_nat (length conns), s\<lparr>store := w, aggregator := a\<rparr>)))
      else Inr (None, acc, s))"

definition processRequests :: "'w EventWriter \<Rightarrow> 'w IngestionServer \<Rightarrow> EventBatch \<Rightarrow> 64 word
    \<Rightarrow> go_panic + (string option \<times> 64 word \<times> 'w IngestionServer)" where
  "processRequests W s batch acc =
     (if length (ebp_HttpRequests batch) > 0 then
        (let reqs = decodeRequests batch
         in case WriteHTTPRequestEvents W (store s) reqs of
              (Some err, w) \<Rightarrow> Inr (Some err, acc, s\<lparr>store := w\<rparr>)
            | (None, w) \<Rightarrow>
                (case observeHTTPRequests (aggregator s) reqs of
                   Inl p \<Rightarrow> Inl p
                 | Inr a \<Rightarrow>
                     Inr (None, acc + of_nat (length reqs), s\<lparr>store := w, aggregator := a\<rparr>)))
      else Inr (None, acc, s))"

text \<open>\<open>processBatch\<close> returns the accepted count and the error, and leaves the server.\<close>

definition processBatch :: "'w EventWriter \<Rightarrow> 'w IngestionServer \<Rightarrow> EventBatch
    \<Rightarrow> go_panic + ((64 word \<times> string option) \<times> 'w IngestionServer)" where
  "processBatch W s batch =
     (case processConnections W s batch 0 of
        Inl p \<Rightarrow> Inl p
      | Inr (Some err, acc, s1) \<Rightarrow> Inr ((acc, Some err), s1)
      | Inr (None, acc, s1) \<Rightarrow>
          (case processRequests W s1 batch acc of
             Inl p \<Rightarrow> Inl p
           | Inr (Some err, acc2, s2) \<Rightarrow> Inr ((acc2, Some err), s2)
           | Inr (None, acc2, s2) \<Rightarrow>
               Inr ((acc2, None), s2\<lparr>accepted := accepted s2 + acc2\<rparr>)))"

text \<open>
  What \<open>Recv\<close> yields, call after call: a batch or an error other than \<open>io.EOF\<close>; the end
  of the list is \<open>io.EOF\<close>. The stream handler ends by acknowledging the total
  (\<open>SendAndClose\<close>) or by returning the receive error.
\<close>

datatype recv = RecvBatch EventBatch | RecvError string

datatype stream_end = SendAndClose "64 word" | ReturnError string

fun streamLoop :: "'w EventWriter \<Rightarrow> 'w IngestionServer \<Rightarrow> 64 word \<Rightarrow> recv list
    \<Rightarrow> go_panic + (stream_end \<times> 'w IngestionServer)" where
  "streamLoop W s totalAccepted [] =
     Inr (SendAndClose totalAccepted, s\<lparr>srv_logger := srv_logger s @ [''stream finished'']\<rparr>)"
| "streamLoop W s totalAccepted (RecvError err # rest) =
     Inr (ReturnError err, s\<lparr>srv_logger := srv_logger s @ [''failed to receive batch'']\<rparr>)"
| "streamLoop W s totalAccepted (RecvBatch batch # rest) =
     (case processBatch W s batch of
        Inl p \<Rightarrow> Inl p
      | Inr ((acc, processErr), s1) \<Rightarrow>
          streamLoop W
            (s1\<lparr>srv_logger := srv_logger s1 @
                   [case processErr of Some err \<Rightarrow> ''failed to process batch''
                    | None \<Rightarrow> ''processed batch'']\<rparr>)
            (totalAccepted + acc) rest)"

definition StreamEvents :: "'w EventWriter \<Rightarrow> 'w IngestionServer \<Rightarrow> recv list
    \<Rightarrow> go_panic + (stream_end \<times> 'w IngestionServer)" where
  "StreamEvents W s recvs = streamLoop W s 0 recvs"

definition NewIngestionServer :: "'w \<Rightarrow> Aggregator \<Rightarrow> 'w IngestionServer" where
  "NewIngestionServer w a = \<lparr>store = w, aggregator = a, srv_logger = [], accepted = 0\<rparr>"

section \<open>Identity cache (internal/agent/k8s/cache.go)\<close>

text \<open>\<open>strings.LastIndex\<close> for a one-byte separator: the last index of the byte, or \<open>-1\<close>.\<close>

fun lastIndexFrom :: "string \<Rightarrow> char \<Rightarrow> nat \<Rightarrow> int \<Rightarrow> int" where
  "lastIndexFrom [] c i found = found"
| "lastIndexFrom (x # xs) c i found = lastIndexFrom xs c (i + 1) (if x = c then int i else found)"

definition LastIndex :: "string \<Rightarrow> char \<Rightarrow> int" where
  "LastIndex s c = lastIndexFrom s c 0 (- 1)"

definition stripReplicaSetHash :: "string \<Rightarrow> string" where
  "stripReplicaSetHash name =
     (let idx = LastIndex name (CHR ''-'')
      in if idx \<le> 0 then name
         else
           let suffix = drop (nat (idx + 1)) name
           in if length suffix \<ge> 5 \<and> length suffix \<le> 16 then take (nat idx) name else name)"

record OwnerReference =
  or_Kind :: string
  or_Name :: string

record Pod =
  pod_Name :: string
  pod_Namespace :: string
  pod_OwnerReferences :: "OwnerReference list"

text \<open>
  \<open>getRS\<close> stands for the API call that fetches a ReplicaSet: an error, or the owner
  references of the ReplicaSet.
\<close>

definition resolveReplicaSetOwner :: "(string \<Rightarrow> string \<Rightarrow> string + OwnerReference list)
    \<Rightarrow> string \<Rightarrow> string \<Rightarrow> string" where
  "resolveReplicaSetOwner getRS namespace rsName =
     (case getRS namespace rsName of
        Inl err \<Rightarrow> []
      | Inr refs \<Rightarrow>
          (case find (\<lambda>ref. or_Kind ref = ''Deployment'') refs of
             Some ref \<Rightarrow> or_Name ref
           | None \<Rightarrow> []))"

definition resolveWorkload :: "(string \<Rightarrow> string \<Rightarrow> string + OwnerReference list) \<Rightarrow> Pod
    \<Rightarrow> string \<times> string" where
  "resolveWorkload getRS pod =
     (if length (pod_OwnerReferences pod) = 0 then (pod_Name pod, ''Pod'')
      else
        let owner = hd (pod_OwnerReferences pod)
        in if or_Kind owner = ''ReplicaSet'' then
             (let deployName = resolveReplicaSetOwner getRS (pod_Namespace pod) (or_Name owner)
              in if deployName \<noteq> [] then (deployName, ''Deployment'')
                 else (stripReplicaSetHash (or_Name owner), ''ReplicaSet''))
           else if or_Kind owner = ''StatefulSet'' then (or_Name owner, ''StatefulSet'')
           else if or_Kind owner = ''DaemonSet'' then (or_Name owner, ''DaemonSet'')
           else if or_Kind owner = ''Job'' then (or_Name owner, ''Job'')
           else (or_Name owner, or_Kind owner))"

text \<open>
  What the comment in \<open>stripReplicaSetHash\<close> and the specification call a hash suffix:
  5 to 16 characters, all of them letters or digits.
\<close>

definition isAlphanumeric :: "char \<Rightarrow> bool" where
  "isAlphanumeric c =
     (let n = (of_char c :: nat)
      in (48 \<le> n \<and> n \<le> 57) \<or> (65 \<le> n \<and> n \<le> 90) \<or> (97 \<le> n \<and> n \<le> 122))"

definition looksLikeHash :: "string \<Rightarrow> bool" where
  "looksLikeHash suffix = (5 \<le> length suffix \<and> length suffix \<le> 16 \<and> list_all isAlphanumeric suffix)"

section \<open>Probe loader (internal/agent/ebpf/loader.go)\<close>

record HttpEvent =
  hev_TimestampNs :: "64 word"
  hev_SrcIP :: "32 word"
  hev_DstIP :: "32 word"
  hev_SrcPort :: "16 word"
  hev_DstPort :: "16 word"
  hev_Method :: "8 word"
  hev_StatusCode :: "16 word"
  hev_LatencyNs :: "64 word"
  hev_Path :: "8 word list"
  hev_Pad :: "8 word list"

definition httpMethods :: "8 word \<rightharpoonup> string" where
  "httpMethods =
     [0 \<mapsto> ''UNKNOWN'', 1 \<mapsto> ''GET'', 2 \<mapsto> ''POST'', 3 \<mapsto> ''PUT'', 4 \<mapsto> ''DELETE'',
      5 \<mapsto> ''PATCH'', 6 \<mapsto> ''HEAD'', 7 \<mapsto> ''OPTIONS'']"

text \<open>The decimal text of a byte, as \<open>net.IP.String\<close> prints each part of an IPv4 address.\<close>

definition digitChar :: "nat \<Rightarrow> char" where
  "digitChar d = ''0123456789'' ! d"

definition byteDecimal :: "8 word \<Rightarrow> string" where
  "byteDecimal b =
     (let n = unat b
      in (if n \<ge> 100 then [digitChar (n div 100)] else [])
         @ (if n \<ge> 10 then [digitChar ((n div 10) mod 10)] else [])
         @ [digitChar (n mod 10)])"

definition intToIPv4 :: "32 word \<Rightarrow> string" where
  "intToIPv4 ip =
     byteDecimal (ucast ip) @ ''.'' @ byteDecimal (ucast (drop_bit 8 ip)) @ ''.''
       @ byteDecimal (ucast (drop_bit 16 ip)) @ ''.'' @ byteDecimal (ucast (drop_bit 24 ip))"

text \<open>The loop that finds the length of the path: up to the first NUL byte.\<close>

fun pathLenLoop :: "8 word list \<Rightarrow> nat \<Rightarrow> nat \<Rightarrow> nat" where
  "pathLenLoop [] i pathLen = pathLen"
| "pathLenLoop (b # bs) i pathLen = (if b = 0 then i else pathLenLoop bs (i + 1) (i + 1))"

definition httpEventToModel :: "HttpEvent \<Rightarrow> HTTPRequestEvent" where
  "httpEventToModel he =
     (let method = (case httpMethods (hev_Method he) of Some m \<Rightarrow> m | None \<Rightarrow> ''UNKNOWN'');
          pathBytes = hev_Path he;
          pathLen = pathLenLoop pathBytes 0 0;
          path = map (\<lambda>b. char_of (unat b)) (take pathLen pathBytes)
      in \<lparr>he_Timestamp = sint (hev_TimestampNs he), he_Node = [],
          he_Source = emptyEndpoint\<lparr>ep_IP := intToIPv4 (hev_SrcIP he), ep_Port := hev_SrcPort he\<rparr>,
          he_Destination =
            emptyEndpoint\<lparr>ep_IP := intToIPv4 (hev_DstIP he), ep_Port := hev_DstPort he\<rparr>,
          he_Method = method, he_Path = path, he_StatusCode = hev_StatusCode he,
          he_LatencyNs = hev_LatencyNs he, he_Protocol = ''HTTP''\<rparr>)"

section \<open>Well-formed aggregators and example stores\<close>

text \<open>
  Every service's histogram has one count per boundary and the overflow count. A new
  aggregator is well-formed and the observations keep it so.
\<close>

definition wellFormed :: "Aggregator \<Rightarrow> bool" where
  "wellFormed a =
     (\<forall>svc sm. services a svc = Some sm \<longrightarrow> length (latencyCounts sm) = length (buckets a) + 1)"

text \<open>
  A store that records what it is given: the connection events and the request events
  written so far. Its writer can be told to refuse the writes of either kind.
\<close>

definition recordingWriter :: "bool \<Rightarrow> bool
    \<Rightarrow> (ConnectionEvent list \<times> HTTPRequestEvent list) EventWriter" where
  "recordingWriter refuseConns refuseReqs =
     \<lparr>WriteConnectionEvents =
        (\<lambda>w cs. if refuseConns then (Some ''unavailable'', w) else (None, (fst w @ cs, snd w))),
      WriteHTTPRequestEvents =
        (\<lambda>w rs. if refuseReqs then (Some ''unavailable'', w) else (None, (fst w, snd w @ rs)))\<rparr>"

text \<open>A batch of one connection event and one request event.\<close>

definition mixedBatch :: EventBatch where
  "mixedBatch =
     \<lparr>ebp_Node = ''n1'',
      ebp_Connections = [connectionEventToProto (sampleConn ''a'' ''b'' 5)],
      ebp_HttpRequests = [httpRequestEventToProto (sampleReq ''a'' ''b'' 200 7)]\<rparr>"

text \<open>A new server on an empty recording store and a new aggregator.\<close>

definition exampleServer :: "(ConnectionEvent list \<times> HTTPRequestEvent list) IngestionServer" where
  "exampleServer = NewIngestionServer ([], []) NewAggregator"

text \<open>
  A store that fails transiently: it refuses the writes of connection events while its
  counter of failures to come is positive, and records whatever it accepts.
\<close>

definition flakyWriter :: "(nat \<times> ConnectionEvent list \<times> HTTPRequestEvent list) EventWriter" where
  "flakyWriter =
     \<lparr>WriteConnectionEvents =
        (\<lambda>(k, cs, rs) xs. if k > 0 then (Some ''unavailable'', (k - 1, cs, rs))
                           else (None, (k, cs @ xs, rs))),
      WriteHTTPRequestEvents = (\<lambda>(k, cs, rs) xs. (None, (k, cs, rs @ xs)))\<rparr>"

text \<open>A new server on an empty store that will fail once.\<close>

definition flakyServer :: "(nat \<times> ConnectionEvent list \<times> HTTPRequestEvent list) IngestionServer" where
  "flakyServer = NewIngestionServer (1, [], []) NewAggregator"

section \<open>Histograms of samples\<close>







section \<open>Export queue: bound and drop-oldest\<close>

lemma drop_one_snoc: "q \<noteq> [] \<Longrightarrow> drop 1 q @ [x] = drop 1 (q @ [x])"
  by (cases q) simp_all

lemma requeue_drop:
  assumes "length q \<le> B" and "0 < B"
  shows "drop (length (drop (length q + 1 - B) (q @ [x])) + length xs - B)
              (drop (length q + 1 - B) (q @ [x]) @ xs)
         = drop (length q + length (x # xs) - B) (q @ x # xs)"
proof (cases "length q = B")
  case True
  then have ne: "q \<noteq> []" using assms by auto
  have e1: "drop 1 (q @ [x]) @ xs = drop 1 (q @ x # xs)"
    using ne by (cases q) simp_all
  have e2: "drop (length xs) (drop 1 (q @ x # xs)) = drop (length xs + 1) (q @ x # xs)"
    by (simp only: drop_drop)
  have i1: "length q + 1 - B = 1" and i2: "length q + length (x # xs) - B = length xs + 1"
    using True by simp_all
  have i3: "length (drop 1 (q @ [x])) + length xs - B = length xs"
    using True by simp
  show ?thesis unfolding i1 i2 i3 e1 e2 ..
next
  case False
  then have "length q < B" using assms by simp
  then show ?thesis by simp
qed

lemma Enqueue_step:
  assumes "0 < queueLimit e" and "int (length (queue e)) \<le> queueLimit e"
  shows "\<exists>e'. Enqueue x e = Inr e'
           \<and> queueLimit e' = queueLimit e
           \<and> queue e' = drop (length (queue e) + 1 - nat (queueLimit e)) (queue e @ [x])
           \<and> dropCount e' = dropCount e + (length (queue e) + 1 - nat (queueLimit e))"
proof (cases "int (length (queue e)) \<ge> queueLimit e")
  case True
  with assms have len: "length (queue e) = nat (queueLimit e)" by linarith
  with assms have ne: "queue e \<noteq> []" by auto
  have d: "length (queue e) + 1 - nat (queueLimit e) = 1" using len by simp
  have "Enqueue x e = Inr (e\<lparr>queue := drop 1 (queue e) @ [x],
          logger := logger e @ [''event queue full, dropping oldest event'']\<rparr>)"
    using True ne by (simp add: Enqueue_def)
  then show ?thesis
    unfolding d drop_one_snoc [OF ne, symmetric] by (simp add: dropCount_def)
next
  case False
  then have d: "length (queue e) + 1 - nat (queueLimit e) = 0" by linarith
  show ?thesis
    using False unfolding d by (simp add: Enqueue_def dropCount_def)
qed

lemma EnqueueAll_general:
  assumes "0 < queueLimit e" and "int (length (queue e)) \<le> queueLimit e"
  shows "\<exists>e'. EnqueueAll xs e = Inr e'
           \<and> queueLimit e' = queueLimit e
           \<and> queue e' = drop (length (queue e) + length xs - nat (queueLimit e)) (queue e @ xs)
           \<and> dropCount e' = dropCount e + (length (queue e) + length xs - nat (queueLimit e))"
  using assms
proof (induction xs arbitrary: e)
  case Nil
  then have "length (queue e) - nat (queueLimit e) = 0" by linarith
  then show ?case by simp
next
  case (Cons x xs)
  let ?n = "length (queue e)" and ?B = "nat (queueLimit e)"
  have nB: "?n \<le> ?B" using Cons.prems by linarith
  have Bpos: "0 < ?B" using Cons.prems by linarith
  from Enqueue_step [OF Cons.prems, of x] obtain e1 where
    s: "Enqueue x e = Inr e1" and l: "queueLimit e1 = queueLimit e"
    and q: "queue e1 = drop (?n + 1 - ?B) (queue e @ [x])"
    and c: "dropCount e1 = dropCount e + (?n + 1 - ?B)"
    by blast
  have "length (queue e1) = ?n + 1 - (?n + 1 - ?B)"
    unfolding q length_drop by simp
  then have len1: "length (queue e1) = min (?n + 1) ?B"
    using nB Bpos by linarith
  have b1: "int (length (queue e1)) \<le> queueLimit e1" using len1 l Cons.prems by linarith
  have p1: "0 < queueLimit e1" using l Cons.prems by simp
  from Cons.IH [OF p1 b1] obtain e2 where
    s2: "EnqueueAll xs e1 = Inr e2" and l2: "queueLimit e2 = queueLimit e1"
    and q2: "queue e2 = drop (length (queue e1) + length xs - nat (queueLimit e1)) (queue e1 @ xs)"
    and c2: "dropCount e2 = dropCount e1 + (length (queue e1) + length xs - nat (queueLimit e1))"
    by blast
  have qeq: "queue e2 = drop (?n + length (x # xs) - ?B) (queue e @ x # xs)"
    unfolding q2 l unfolding q by (rule requeue_drop [OF nB Bpos])
  have ceq: "dropCount e2 = dropCount e + (?n + length (x # xs) - ?B)"
    unfolding c2 c l len1 using nB Bpos by (simp add: min_def)
  show ?case using s s2 l l2 qeq ceq by simp
qed

text \<open>
  Claim C1. On an exporter with a positive queue bound \<open>B\<close> (\<open>NewExporter\<close> sets 10000):
  an \<open>Enqueue\<close> on a queue of length \<open>B\<close> drops exactly the head, logs one drop and
  appends the event; and after the first \<open>j\<close> of any stream of enqueues on a new exporter
  the call has returned, the queue is no longer than \<open>B\<close>, it holds the last \<open>B\<close> enqueued
  events in enqueue order (all of them when \<open>j \<le> B\<close>), and \<open>j - B\<close> events have been
  dropped.
\<close>

theorem Enqueue_bounded_drops_oldest:
  assumes "0 < B"
  shows "(\<forall>(e::Exporter) x. queueLimit e = B \<and> int (length (queue e)) = B \<longrightarrow>
            (\<exists>e'. Enqueue x e = Inr e' \<and> queue e' = tl (queue e) @ [x]
                  \<and> dropCount e' = dropCount e + 1))
       \<and> (\<forall>xs j. j \<le> length xs \<longrightarrow>
            (\<exists>e'. EnqueueAll (take j xs) ((NewExporter a n)\<lparr>queueLimit := B\<rparr>) = Inr e'
                  \<and> int (length (queue e')) \<le> B
                  \<and> queue e' = drop (j - nat B) (take j xs)
                  \<and> dropCount e' = j - nat B))"
proof (intro conjI allI impI)
  fix e :: Exporter and x
  assume h: "queueLimit e = B \<and> int (length (queue e)) = B"
  then have ne: "queue e \<noteq> []" using assms by auto
  then have "Enqueue x e = Inr (e\<lparr>queue := drop 1 (queue e) @ [x],
          logger := logger e @ [''event queue full, dropping oldest event'']\<rparr>)"
    using h by (simp add: Enqueue_def)
  then show "\<exists>e'. Enqueue x e = Inr e' \<and> queue e' = tl (queue e) @ [x]
                  \<and> dropCount e' = dropCount e + 1"
    by (simp add: dropCount_def drop_Suc)
next
  fix xs :: "event list" and j
  assume j: "j \<le> length xs"
  let ?e0 = "(NewExporter a n)\<lparr>queueLimit := B\<rparr>"
  have q0: "queue ?e0 = []" and l0: "queueLimit ?e0 = B" and d0: "dropCount ?e0 = 0"
    by (simp_all add: NewExporter_def dropCount_def)
  have p: "0 < queueLimit ?e0" and b: "int (length (queue ?e0)) \<le> queueLimit ?e0"
    using assms by (simp_all add: NewExporter_def)
  from EnqueueAll_general [OF p b, of "take j xs"] obtain e' where
    r: "EnqueueAll (take j xs) ?e0 = Inr e'"
    and q: "queue e' = drop (length (queue ?e0) + length (take j xs) - nat (queueLimit ?e0))
                            (queue ?e0 @ take j xs)"
    and c: "dropCount e' = dropCount ?e0
              + (length (queue ?e0) + length (take j xs) - nat (queueLimit ?e0))"
    by blast
  have lj: "length (take j xs) = j" using j by simp
  have q': "queue e' = drop (j - nat B) (take j xs)"
    using q unfolding q0 l0 lj by simp
  have c': "dropCount e' = j - nat B"
    using c unfolding q0 l0 d0 lj by simp
  have "length (queue e') = j - (j - nat B)" unfolding q' length_drop lj ..
  then have "int (length (queue e')) \<le> B" using assms by linarith
  then show "\<exists>e'. EnqueueAll (take j xs) ?e0 = Inr e'
                  \<and> int (length (queue e')) \<le> B
                  \<and> queue e' = drop (j - nat B) (take j xs)
                  \<and> dropCount e' = j - nat B"
    using r q' c' by blast
qed

theorem Enqueue_bounded_drops_oldest_witness:
  "(0::int) < 2
   \<and> (\<exists>e'. Enqueue (OtherEv 3) ((NewExporter ''srv'' ''n1'')\<lparr>queueLimit := 2, queue := [OtherEv 1, OtherEv 2]\<rparr>) = Inr e'
          \<and> queue e' = [OtherEv 2, OtherEv 3])
   \<and> (\<exists>e'. EnqueueAll [OtherEv 1, OtherEv 2, OtherEv 3] ((NewExporter ''srv'' ''n1'')\<lparr>queueLimit := 2\<rparr>) = Inr e'
          \<and> queue e' = [OtherEv 2, OtherEv 3] \<and> dropCount e' = 1)"
proof -
  have h: "(0::int) < 2" by simp
  note t = Enqueue_bounded_drops_oldest [OF h, of "''srv''" "''n1''"]
  from t have "\<exists>e'. Enqueue (OtherEv 3) ((NewExporter ''srv'' ''n1'')\<lparr>queueLimit := 2, queue := [OtherEv 1, OtherEv 2]\<rparr>) = Inr e'
          \<and> queue e' = tl (queue ((NewExporter ''srv'' ''n1'')\<lparr>queueLimit := 2, queue := [OtherEv 1, OtherEv 2]\<rparr>)) @ [OtherEv 3]
          \<and> dropCount e' = dropCount ((NewExporter ''srv'' ''n1'')\<lparr>queueLimit := 2, queue := [OtherEv 1, OtherEv 2]\<rparr>) + 1"
    by (elim conjE allE [where x = "(NewExporter ''srv'' ''n1'')\<lparr>queueLimit := 2, queue := [OtherEv 1, OtherEv 2]\<rparr>"]
          allE [where x = "OtherEv 3"]) simp
  then have a: "\<exists>e'. Enqueue (OtherEv 3) ((NewExporter ''srv'' ''n1'')\<lparr>queueLimit := 2, queue := [OtherEv 1, OtherEv 2]\<rparr>) = Inr e'
          \<and> queue e' = [OtherEv 2, OtherEv 3]"
    by auto
  from t have "\<exists>e'. EnqueueAll (take 3 [OtherEv 1, OtherEv 2, OtherEv 3]) ((NewExporter ''srv'' ''n1'')\<lparr>queueLimit := 2\<rparr>) = Inr e'
                  \<and> int (length (queue e')) \<le> 2
                  \<and> queue e' = drop (3 - nat 2) (take 3 [OtherEv 1, OtherEv 2, OtherEv 3])
                  \<and> dropCount e' = 3 - nat 2"
    by (elim conjE allE [where x = "[OtherEv 1, OtherEv 2, OtherEv 3]"] allE [where x = "3::nat"]) simp
  then have b: "\<exists>e'. EnqueueAll [OtherEv 1, OtherEv 2, OtherEv 3] ((NewExporter ''srv'' ''n1'')\<lparr>queueLimit := 2\<rparr>) = Inr e'
          \<and> queue e' = [OtherEv 2, OtherEv 3] \<and> dropCount e' = 1"
    by auto
  show ?thesis using h a b by blast
qed

section \<open>Export client: re-queueing a batch after a failed send\<close>

lemma truncateToLimit_ok:
  assumes "0 \<le> limit"
  shows "truncateToLimit r limit = Inr (drop (length r - nat limit) r)"
proof -
  have "nat (int (length r) - limit) = length r - nat limit" using assms by linarith
  moreover have "\<not> int (length r) > limit \<Longrightarrow> length r - nat limit = 0" by linarith
  ultimately show ?thesis using assms by (simp add: truncateToLimit_def)
qed

lemma foldl_addToBatch_fst:
  "fst (foldl addToBatch (pb, lg) xs) = fst (foldl addToBatch (pb, []) xs)"
proof (induction xs arbitrary: pb lg rule: rev_induct)
  case Nil
  show ?case by simp
next
  case (snoc x xs)
  obtain p1 l1 where a: "foldl addToBatch (pb, lg) xs = (p1, l1)" by (cases "foldl addToBatch (pb, lg) xs")
  obtain p2 l2 where b: "foldl addToBatch (pb, []) xs = (p2, l2)" by (cases "foldl addToBatch (pb, []) xs")
  from snoc [of pb lg] a b have "p1 = p2" by simp
  then show ?case using a b by (cases x) simp_all
qed

lemma Enqueue_frame:
  "Enqueue x e = Inr e' \<Longrightarrow> stream e' = stream e \<and> nodeName e' = nodeName e"
  by (auto simp: Enqueue_def split: if_splits)

lemma EnqueueAll_frame:
  "EnqueueAll xs e = Inr e' \<Longrightarrow> stream e' = stream e \<and> nodeName e' = nodeName e"
proof (induction xs arbitrary: e)
  case Nil
  then show ?case by simp
next
  case (Cons x xs)
  then obtain e1 where a: "Enqueue x e = Inr e1" and b: "EnqueueAll xs e1 = Inr e'"
    by (auto split: sum.splits)
  from Cons.IH [OF b] Enqueue_frame [OF a] show ?case by simp
qed

lemma flush_error_path:
  assumes "queue e \<noteq> []"
    and "n' = (if batchSize e > int (length (queue e)) then int (length (queue e)) else batchSize e)"
    and "0 \<le> n'"
    and "EnqueueAll meanwhile (e\<lparr>queue := drop (nat n') (queue e)\<rparr>) = Inr e2"
    and "foldl addToBatch
          (\<lparr>ebp_Node = nodeName e2, ebp_Connections = [], ebp_HttpRequests = []\<rparr>, logger e2)
          (take (nat n') (queue e)) = (pb, lg)"
    and "stream e2 = Some send" and "send pb = Some err"
    and "truncateToLimit (take (nat n') (queue e) @ queue e2) (queueLimit e2) = Inr rem"
  shows "flush meanwhile e = Inr (Some (''stream send: '' @ err), e2\<lparr>logger := lg, queue := rem\<rparr>)"
  using assms by (simp add: flush_def Let_def)

text \<open>
  Claim C4, as the code has it. When \<open>Send\<close> fails on a non-empty queue (batch size not
  negative, positive bound, queue within the bound), \<open>flush\<close> returns the send error, wrapped,
  and the queue becomes the unsent batch followed by what the queue held when the lock was
  taken again (the rest of the old queue and the events enqueued meanwhile, themselves kept
  within the bound by \<open>Enqueue\<close>). When that exceeds the bound, the events dropped are the
  first ones, the oldest of the batch: the last \<open>queueLimit\<close> events stay.
\<close>

theorem flush_send_error_requeues:
  fixes e :: Exporter
  assumes q: "queue e \<noteq> []" and bs: "0 \<le> batchSize e"
    and lim: "0 < queueLimit e" and bound: "int (length (queue e)) \<le> queueLimit e"
    and st: "stream e = Some send"
    and fail: "send (buildBatch (nodeName e)
                 (take (min (nat (batchSize e)) (length (queue e))) (queue e))) = Some err"
  shows "\<exists>e'. flush meanwhile e = Inr (Some (''stream send: '' @ err), e')
           \<and> queue e' =
               (let n = min (nat (batchSize e)) (length (queue e));
                    batch = take n (queue e);
                    rest = drop n (queue e) @ meanwhile;
                    later = drop (length rest - nat (queueLimit e)) rest;
                    remaining = batch @ later
                in drop (length remaining - nat (queueLimit e)) remaining)
           \<and> int (length (queue e')) \<le> queueLimit e"
proof -
  define n where "n = min (nat (batchSize e)) (length (queue e))"
  define n' where "n' = (if batchSize e > int (length (queue e)) then int (length (queue e)) else batchSize e)"
  define e1 where "e1 = e\<lparr>queue := drop n (queue e)\<rparr>"
  have nn: "n' = int n"
    using bs unfolding n_def n'_def by (simp add: min_def) linarith
  then have nn': "nat n' = n" and n0: "0 \<le> n'" by simp_all
  have p1: "0 < queueLimit e1" and b1: "int (length (queue e1)) \<le> queueLimit e1"
    using lim bound unfolding e1_def by simp_all
  from EnqueueAll_general [OF p1 b1, of meanwhile] obtain e2 where
    r2: "EnqueueAll meanwhile e1 = Inr e2" and l2: "queueLimit e2 = queueLimit e1"
    and q2: "queue e2 = drop (length (queue e1) + length meanwhile - nat (queueLimit e1))
                             (queue e1 @ meanwhile)"
    by blast
  obtain pb lg where f: "foldl addToBatch
        (\<lparr>ebp_Node = nodeName e2, ebp_Connections = [], ebp_HttpRequests = []\<rparr>, logger e2)
        (take n (queue e)) = (pb, lg)"
    by (cases "foldl addToBatch
        (\<lparr>ebp_Node = nodeName e2, ebp_Connections = [], ebp_HttpRequests = []\<rparr>, logger e2)
        (take n (queue e))")
  have s2: "stream e2 = Some send"
    using EnqueueAll_frame [OF r2] st unfolding e1_def by simp
  have ql: "queueLimit e2 = queueLimit e" using l2 unfolding e1_def by simp
  let ?rem = "take n (queue e) @ queue e2"
  have t: "truncateToLimit ?rem (queueLimit e2) = Inr (drop (length ?rem - nat (queueLimit e)) ?rem)"
    unfolding ql using lim by (intro truncateToLimit_ok) simp
  have fl: "flush meanwhile e = Inr (Some (''stream send: '' @ err),
               e2\<lparr>logger := lg, queue := drop (length ?rem - nat (queueLimit e)) ?rem\<rparr>)"
  proof -
    have a4: "EnqueueAll meanwhile (e\<lparr>queue := drop (nat n') (queue e)\<rparr>) = Inr e2"
      using r2 unfolding nn' e1_def .
    have a5: "foldl addToBatch
        (\<lparr>ebp_Node = nodeName e2, ebp_Connections = [], ebp_HttpRequests = []\<rparr>, logger e2)
        (take (nat n') (queue e)) = (pb, lg)"
      using f unfolding nn' .
    have a8: "truncateToLimit (take (nat n') (queue e) @ queue e2) (queueLimit e2)
                = Inr (drop (length ?rem - nat (queueLimit e)) ?rem)"
      using t unfolding nn' .
    have "pb = fst (foldl addToBatch
        (\<lparr>ebp_Node = nodeName e2, ebp_Connections = [], ebp_HttpRequests = []\<rparr>, logger e2)
        (take n (queue e)))"
      unfolding f by simp
    also have "\<dots> = buildBatch (nodeName e2) (take n (queue e))"
      unfolding buildBatch_def by (rule foldl_addToBatch_fst)
    also have "nodeName e2 = nodeName e"
      using EnqueueAll_frame [OF r2] unfolding e1_def by simp
    finally have a7: "send pb = Some err"
      using fail unfolding n_def by simp
    show ?thesis
      by (rule flush_error_path [OF q n'_def n0 a4 a5 s2 a7 a8])
  qed
  have qq: "queue e2 = drop (length (drop n (queue e) @ meanwhile) - nat (queueLimit e))
                            (drop n (queue e) @ meanwhile)"
    unfolding q2 unfolding e1_def by simp
  have len: "int (length (drop (length ?rem - nat (queueLimit e)) ?rem)) \<le> queueLimit e"
    using lim unfolding length_drop by linarith
  define e' where "e' = e2\<lparr>logger := lg, queue := drop (length ?rem - nat (queueLimit e)) ?rem\<rparr>"
  have sel: "queue e' = drop (length ?rem - nat (queueLimit e)) ?rem"
    by (simp add: e'_def)
  have A: "flush meanwhile e = Inr (Some (''stream send: '' @ err), e')"
    using fl unfolding e'_def .
  have B: "queue e' =
               (let n = min (nat (batchSize e)) (length (queue e));
                    batch = take n (queue e);
                    rest = drop n (queue e) @ meanwhile;
                    later = drop (length rest - nat (queueLimit e)) rest;
                    remaining = batch @ later
                in drop (length remaining - nat (queueLimit e)) remaining)"
    unfolding sel Let_def n_def [symmetric] qq [symmetric] ..
  have C: "int (length (queue e')) \<le> queueLimit e"
    unfolding sel by (rule len)
  show ?thesis using A B C by blast
qed


lemma smallExporter_flush:
  "flush [ConnEv (sampleConn ''a'' ''b'' 3)] smallExporter =
     Inr (Some ''stream send: EOF'',
          smallExporter\<lparr>queue := [ConnEv (sampleConn ''a'' ''b'' 2), ConnEv (sampleConn ''a'' ''b'' 3)]\<rparr>)"
  by (simp add: flush_def smallExporter_def NewExporter_def Enqueue_def truncateToLimit_def
        brokenStream_def Let_def)

text \<open>
  The claim as stated asks for the newest events to be cut. With a bound of two, a batch of
  the two queued events and a third event enqueued during the failed send, the code keeps
  the second and third events; cutting the tail would keep the first and second.
\<close>

theorem flush_truncates_tail_counterexample:
  "map_sum id (queue \<circ> snd) (flush [ConnEv (sampleConn ''a'' ''b'' 3)] smallExporter)
     = Inr [ConnEv (sampleConn ''a'' ''b'' 2), ConnEv (sampleConn ''a'' ''b'' 3)]
   \<and> take (nat (queueLimit smallExporter))
        (queue smallExporter @ [ConnEv (sampleConn ''a'' ''b'' 3)])
     = [ConnEv (sampleConn ''a'' ''b'' 1), ConnEv (sampleConn ''a'' ''b'' 2)]
   \<and> ConnEv (sampleConn ''a'' ''b'' 1) \<noteq> ConnEv (sampleConn ''a'' ''b'' 2)"
proof -
  have "take (nat (queueLimit smallExporter))
        (queue smallExporter @ [ConnEv (sampleConn ''a'' ''b'' 3)])
     = [ConnEv (sampleConn ''a'' ''b'' 1), ConnEv (sampleConn ''a'' ''b'' 2)]"
    by (simp add: smallExporter_def NewExporter_def)
  moreover have "ConnEv (sampleConn ''a'' ''b'' 1) \<noteq> ConnEv (sampleConn ''a'' ''b'' 2)"
    by (simp add: sampleConn_def)
  ultimately show ?thesis by (simp add: smallExporter_flush)
qed

theorem flush_send_error_requeues_witness:
  "queue smallExporter \<noteq> [] \<and> 0 \<le> batchSize smallExporter \<and> 0 < queueLimit smallExporter
   \<and> int (length (queue smallExporter)) \<le> queueLimit smallExporter
   \<and> stream smallExporter = Some brokenStream
   \<and> (\<exists>e'. flush [ConnEv (sampleConn ''a'' ''b'' 3)] smallExporter
              = Inr (Some ''stream send: EOF'', e')
          \<and> queue e' = [ConnEv (sampleConn ''a'' ''b'' 2), ConnEv (sampleConn ''a'' ''b'' 3)]
          \<and> int (length (queue e')) \<le> queueLimit smallExporter)"
proof -
  have h1: "queue smallExporter \<noteq> []" and h2: "0 \<le> batchSize smallExporter"
    and h3: "0 < queueLimit smallExporter"
    and h4: "int (length (queue smallExporter)) \<le> queueLimit smallExporter"
    and h5: "stream smallExporter = Some brokenStream"
    by (simp_all add: smallExporter_def NewExporter_def)
  have h6: "brokenStream (buildBatch (nodeName smallExporter)
                 (take (min (nat (batchSize smallExporter)) (length (queue smallExporter)))
                    (queue smallExporter))) = Some ''EOF''"
    by (simp add: brokenStream_def)
  from flush_send_error_requeues [OF h1 h2 h3 h4 h5 h6, of "[ConnEv (sampleConn ''a'' ''b'' 3)]"]
  have "\<exists>e'. flush [ConnEv (sampleConn ''a'' ''b'' 3)] smallExporter
              = Inr (Some ''stream send: EOF'', e')
          \<and> queue e' = [ConnEv (sampleConn ''a'' ''b'' 2), ConnEv (sampleConn ''a'' ''b'' 3)]
          \<and> int (length (queue e')) \<le> queueLimit smallExporter"
    by (simp add: smallExporter_def NewExporter_def Let_def)
  then show ?thesis using h1 h2 h3 h4 h5 by blast
qed
section \<open>Wire round trip of a connection event\<close>

lemma endpoint_roundtrip: "protoToEndpoint (Some (endpointToProto ep)) = (ep :: Endpoint)"
proof -
  have "ucast (ucast (ep_Port ep) :: 32 word) = ep_Port ep"
    by (rule ucast_up_ucast_id) (simp add: is_up)
  then show ?thesis
    by (simp add: protoToEndpoint_def endpointToProto_def)
qed

lemma time_roundtrip:
  assumes "- (2 ^ 63) \<le> t" and "t < 2 ^ 63"
  shows "time_Unix0 (UnixNano t) = t"
  unfolding time_Unix0_def UnixNano_def
  using assms by (simp add: sint_sbintrunc' signed_take_bit_int_eq_self)

text \<open>
  Claim C8, as the code has it. A connection event whose timestamp fits a signed 64-bit
  count of nanoseconds since the Unix epoch (years 1678 to 2262; every event the probe
  loader builds does) is decoded field-equal after encoding, except that an empty node is
  replaced by the batch's node.
\<close>

theorem connection_roundtrip:
  fixes ce :: ConnectionEvent
  assumes "- (2 ^ 63) \<le> ce_Timestamp ce" and "ce_Timestamp ce < 2 ^ 63"
  shows "protoToConnectionEvent (connectionEventToProto ce) batchNode
           = ce\<lparr>ce_Node := (if ce_Node ce = [] then batchNode else ce_Node ce)\<rparr>"
  using time_roundtrip [OF assms]
  by (simp add: protoToConnectionEvent_def connectionEventToProto_def endpoint_roundtrip)

theorem connection_roundtrip_witness:
  "- (2 ^ 63) \<le> ce_Timestamp (sampleConn ''a'' ''b'' 5)
   \<and> ce_Timestamp (sampleConn ''a'' ''b'' 5) < 2 ^ 63
   \<and> protoToConnectionEvent (connectionEventToProto (sampleConn ''a'' ''b'' 5)) ''n1''
       = (sampleConn ''a'' ''b'' 5)\<lparr>ce_Node := ''n1''\<rparr>"
proof -
  have h1: "- (2 ^ 63) \<le> ce_Timestamp (sampleConn ''a'' ''b'' 5)"
    and h2: "ce_Timestamp (sampleConn ''a'' ''b'' 5) < 2 ^ 63"
    by (simp_all add: sampleConn_def)
  have n: "ce_Node (sampleConn ''a'' ''b'' 5) = []" by (simp add: sampleConn_def)
  show ?thesis
    using h1 h2 connection_roundtrip [OF h1 h2, of "''n1''"] unfolding n by simp
qed

text \<open>
  The claim as stated covers every connection event. One stamped with the zero
  \<open>time.Time\<close> comes back stamped in the year 1754: its nanosecond count does not fit 64
  bits and \<open>UnixNano\<close> wraps.
\<close>

theorem connection_roundtrip_counterexample:
  "ce_Timestamp zeroTimeEvent = - 62135596800000000000
   \<and> ce_Timestamp (protoToConnectionEvent (connectionEventToProto zeroTimeEvent) ''n1'')
       = - 6795364578871345152"
  by (simp add: zeroTimeEvent_def protoToConnectionEvent_def connectionEventToProto_def
        time_Unix0_def UnixNano_def)

section \<open>Aggregator: histogram insertion\<close>

lemma findBucket_Some:
  "findBucket bs x k = Some i \<Longrightarrow>
     k \<le> i \<and> i - k < length bs \<and> x \<le> bs ! (i - k) \<and> (\<forall>j < i - k. \<not> x \<le> bs ! j)"
proof (induction bs arbitrary: k)
  case Nil
  then show ?case by simp
next
  case (Cons b bs)
  show ?case
  proof (cases "x \<le> b")
    case True
    with Cons.prems show ?thesis by simp
  next
    case False
    with Cons.prems have r: "findBucket bs x (k + 1) = Some i" by simp
    from Cons.IH [OF r] have a: "k + 1 \<le> i" and b: "i - (k + 1) < length bs"
      and c: "x \<le> bs ! (i - (k + 1))" and d: "\<forall>j < i - (k + 1). \<not> x \<le> bs ! j"
      by simp_all
    from a obtain m where m: "i - k = Suc m" and m': "i - (k + 1) = m"
      by (metis Suc_diff_Suc Suc_eq_plus1 Suc_le_lessD diff_diff_left plus_1_eq_Suc)
    have "\<forall>j < Suc m. \<not> x \<le> (b # bs) ! j"
    proof (intro allI impI)
      fix j assume "j < Suc m"
      then show "\<not> x \<le> (b # bs) ! j" using False d m' by (cases j) simp_all
    qed
    then show ?thesis using a b c m m' by simp
  qed
qed

lemma findBucket_None:
  "findBucket bs x k = None \<longleftrightarrow> (\<forall>j < length bs. \<not> x \<le> bs ! j)"
proof (induction bs arbitrary: k)
  case Nil
  show ?case by simp
next
  case (Cons b bs)
  show ?case
  proof (cases "x \<le> b")
    case True
    then show ?thesis by auto
  next
    case False
    have "(\<forall>j < length (b # bs). \<not> x \<le> (b # bs) ! j) \<longleftrightarrow> (\<forall>j < length bs. \<not> x \<le> bs ! j)"
      using False by (auto simp: nth_Cons split: nat.splits) 
    then show ?thesis using False Cons.IH [of "k + 1"] by simp
  qed
qed

lemma foldl_plus_sum_list:
  "foldl (\<lambda>t c. t + c) a cs = a + sum_list (cs :: 64 word list)"
  by (induction cs arbitrary: a) (simp_all add: add.assoc)

lemma totalHistogramCount_sum_list: "totalHistogramCount cs = sum_list cs"
  by (simp add: totalHistogramCount_def foldl_plus_sum_list)

lemma sum_list_increment:
  "i < length cs \<Longrightarrow> sum_list (cs[i := cs ! i + 1]) = sum_list cs + (1 :: 64 word)"
proof (induction cs arbitrary: i)
  case Nil
  then show ?case by simp
next
  case (Cons c cs)
  then show ?case by (cases i) simp_all
qed


lemma observeLatency_step:
  assumes len: "length (latencyCounts sm) = length bs + 1"
  shows "\<exists>i. i \<le> length bs \<and> (\<forall>j < i. \<not> x \<le> bs ! j) \<and> (i < length bs \<longrightarrow> x \<le> bs ! i)
           \<and> observeLatency bs sm x =
               Inr (sm\<lparr>latencySum := latencySum sm + x,
                       latencyCounts := (latencyCounts sm)[i := latencyCounts sm ! i + 1]\<rparr>)"
proof (cases "findBucket bs x 0")
  case None
  then have all: "\<forall>j < length bs. \<not> x \<le> bs ! j" by (simp add: findBucket_None)
  have "observeLatency bs sm x =
          Inr (sm\<lparr>latencySum := latencySum sm + x,
                  latencyCounts := (latencyCounts sm)[length bs := latencyCounts sm ! length bs + 1]\<rparr>)"
    using None len by (simp add: observeLatency_def incrementAt_def Let_def)
  then show ?thesis using all by blast
next
  case (Some i)
  from findBucket_Some [OF Some] have i: "i < length bs" and le: "x \<le> bs ! i"
    and first: "\<forall>j < i. \<not> x \<le> bs ! j" by simp_all
  have "observeLatency bs sm x =
          Inr (sm\<lparr>latencySum := latencySum sm + x,
                  latencyCounts := (latencyCounts sm)[i := latencyCounts sm ! i + 1]\<rparr>)"
    using Some len i by (simp add: observeLatency_def incrementAt_def Let_def)
  then show ?thesis using i le first by (intro exI [of _ i]) simp
qed

lemma observeLatency_total:
  assumes len: "length (latencyCounts sm) = length bs + 1"
  shows "\<exists>sm'. observeLatency bs sm x = Inr sm'
           \<and> length (latencyCounts sm') = length bs + 1
           \<and> totalHistogramCount (latencyCounts sm') = totalHistogramCount (latencyCounts sm) + 1"
proof -
  from observeLatency_step [OF len, of x] obtain i where i: "i \<le> length bs"
    and r: "observeLatency bs sm x =
               Inr (sm\<lparr>latencySum := latencySum sm + x,
                       latencyCounts := (latencyCounts sm)[i := latencyCounts sm ! i + 1]\<rparr>)"
    by blast
  have "i < length (latencyCounts sm)" using i len by simp
  then have "sum_list ((latencyCounts sm)[i := latencyCounts sm ! i + 1])
               = sum_list (latencyCounts sm) + 1"
    by (rule sum_list_increment)
  then show ?thesis using r len by (simp add: totalHistogramCount_sum_list)
qed

lemma observeAll_total:
  assumes len: "length (latencyCounts sm) = length bs + 1"
  shows "\<exists>sm'. observeAll bs sm xs = Inr sm'
           \<and> length (latencyCounts sm') = length bs + 1
           \<and> totalHistogramCount (latencyCounts sm')
               = totalHistogramCount (latencyCounts sm) + of_nat (length xs)"
  using len
proof (induction xs arbitrary: sm)
  case Nil
  then show ?case by simp
next
  case (Cons x xs)
  from observeLatency_total [OF Cons.prems, of x] obtain sm1 where
    r1: "observeLatency bs sm x = Inr sm1" and l1: "length (latencyCounts sm1) = length bs + 1"
    and t1: "totalHistogramCount (latencyCounts sm1) = totalHistogramCount (latencyCounts sm) + 1"
    by blast
  from Cons.IH [OF l1] obtain sm2 where
    r2: "observeAll bs sm1 xs = Inr sm2" and l2: "length (latencyCounts sm2) = length bs + 1"
    and t2: "totalHistogramCount (latencyCounts sm2)
               = totalHistogramCount (latencyCounts sm1) + of_nat (length xs)"
    by blast
  show ?case using r1 r2 l2 t1 t2 by simp
qed

lemma freshMetrics_total:
  "length (latencyCounts (freshMetrics bs ns)) = length bs + 1
   \<and> totalHistogramCount (latencyCounts (freshMetrics bs ns)) = 0"
  by (simp add: freshMetrics_def totalHistogramCount_sum_list sum_list_replicate)

lemma getOrCreate_fresh:
  "services a svc = None \<Longrightarrow> fst (getOrCreate a svc ns) = freshMetrics (buckets a) ns"
  by (simp add: getOrCreate_def freshMetrics_def Let_def)

text \<open>
  Claim C6. On metrics whose counts have one slot per boundary and one more (as
  \<open>getOrCreate\<close> makes them), observing a sample \<open>x\<close> increments exactly one bucket and
  leaves the others as they are: the bucket \<open>i\<close> of the first boundary with \<open>x \<le> b\<^sub>i\<close>, or
  the overflow bucket at index \<open>|boundaries|\<close> when \<open>x\<close> exceeds every boundary. So any
  sequence of observations adds its length to the sum of the counts, and from new metrics
  the sum is the number of observations (as a 64-bit counter, and as a number below
  \<open>2\<^sup>6\<^sup>4\<close> observations).
\<close>

theorem observeLatency_increments_one_bucket:
  assumes len: "length (latencyCounts sm) = length bs + 1"
  shows "(\<exists>i. i \<le> length bs \<and> (\<forall>j < i. \<not> x \<le> bs ! j) \<and> (i < length bs \<longrightarrow> x \<le> bs ! i)
            \<and> observeLatency bs sm x =
                Inr (sm\<lparr>latencySum := latencySum sm + x,
                        latencyCounts := (latencyCounts sm)[i := latencyCounts sm ! i + 1]\<rparr>))
       \<and> (\<exists>sm'. observeAll bs sm xs = Inr sm'
            \<and> totalHistogramCount (latencyCounts sm')
                = totalHistogramCount (latencyCounts sm) + of_nat (length xs))
       \<and> (\<exists>sm'. observeAll bs (freshMetrics bs ns) xs = Inr sm'
            \<and> totalHistogramCount (latencyCounts sm') = of_nat (length xs)
            \<and> (length xs < 2 ^ 64 \<longrightarrow>
                 unat (totalHistogramCount (latencyCounts sm')) = length xs))"
proof (intro conjI)
  show "\<exists>i. i \<le> length bs \<and> (\<forall>j < i. \<not> x \<le> bs ! j) \<and> (i < length bs \<longrightarrow> x \<le> bs ! i)
            \<and> observeLatency bs sm x =
                Inr (sm\<lparr>latencySum := latencySum sm + x,
                        latencyCounts := (latencyCounts sm)[i := latencyCounts sm ! i + 1]\<rparr>)"
    by (rule observeLatency_step [OF len])
next
  show "\<exists>sm'. observeAll bs sm xs = Inr sm'
            \<and> totalHistogramCount (latencyCounts sm')
                = totalHistogramCount (latencyCounts sm) + of_nat (length xs)"
    using observeAll_total [OF len, of xs] by blast
next
  have l0: "length (latencyCounts (freshMetrics bs ns)) = length bs + 1"
    and t0: "totalHistogramCount (latencyCounts (freshMetrics bs ns)) = 0"
    using freshMetrics_total by simp_all
  from observeAll_total [OF l0, of xs] obtain sm' where
    r: "observeAll bs (freshMetrics bs ns) xs = Inr sm'"
    and t: "totalHistogramCount (latencyCounts sm') = of_nat (length xs)"
    unfolding t0 by auto
  have "length xs < 2 ^ 64 \<longrightarrow> unat (totalHistogramCount (latencyCounts sm')) = length xs"
    unfolding t by (simp add: unat_of_nat)
  then show "\<exists>sm'. observeAll bs (freshMetrics bs ns) xs = Inr sm'
            \<and> totalHistogramCount (latencyCounts sm') = of_nat (length xs)
            \<and> (length xs < 2 ^ 64 \<longrightarrow>
                 unat (totalHistogramCount (latencyCounts sm')) = length xs)"
    using r t by blast
qed

theorem observeLatency_increments_one_bucket_witness:
  "length (latencyCounts (freshMetrics [10, 20] ''ns'')) = length [10, 20 :: real] + 1
   \<and> observeLatency [10, 20] (freshMetrics [10, 20] ''ns'') 15
       = Inr ((freshMetrics [10, 20] ''ns'')\<lparr>latencySum := 15, latencyCounts := [0, 1, 0]\<rparr>)
   \<and> (\<exists>sm'. observeAll [10, 20] (freshMetrics [10, 20] ''ns'') [5, 15, 25, 20] = Inr sm'
          \<and> totalHistogramCount (latencyCounts sm') = 4)"
proof -
  have h: "length (latencyCounts (freshMetrics [10, 20] ''ns'')) = length [10, 20 :: real] + 1"
    by (simp add: freshMetrics_def)
  note t = observeLatency_increments_one_bucket [OF h, of 15 "[5, 15, 25, 20]" "''ns''"]
  have a: "observeLatency [10, 20] (freshMetrics [10, 20] ''ns'') 15
       = Inr ((freshMetrics [10, 20] ''ns'')\<lparr>latencySum := 15, latencyCounts := [0, 1, 0]\<rparr>)"
    by (simp add: observeLatency_def incrementAt_def freshMetrics_def)
  from t have "\<exists>sm'. observeAll [10, 20] (freshMetrics [10, 20] ''ns'') [5, 15, 25, 20] = Inr sm'
          \<and> totalHistogramCount (latencyCounts sm') = 4"
    by (elim conjE) (auto simp del: observeAll.simps)
  then show ?thesis using h a by blast
qed

section \<open>Ingestion server: a failing storage write\<close>

lemma getOrCreate_wellFormed:
  assumes "wellFormed a" and "getOrCreate a svc ns = (sm, a1)"
  shows "length (latencyCounts sm) = length (buckets a) + 1 \<and> buckets a1 = buckets a
         \<and> wellFormed a1"
proof (cases "services a svc")
  case None
  with assms show ?thesis
    by (auto simp: getOrCreate_def Let_def wellFormed_def split: if_splits)
next
  case (Some sm0)
  with assms show ?thesis
    by (auto simp: getOrCreate_def wellFormed_def)
qed

lemma wellFormed_update:
  assumes "wellFormed a" and "length (latencyCounts sm) = length (buckets a) + 1"
  shows "wellFormed (a\<lparr>services := (services a)(svc \<mapsto> sm)\<rparr>)"
  using assms by (simp add: wellFormed_def)

lemma ObserveConnection_wellFormed:
  assumes wf: "wellFormed a"
  shows "\<exists>a'. ObserveConnection a ev = Inr a' \<and> wellFormed a' \<and> buckets a' = buckets a"
proof -
  define svc where "svc = (if ep_Service (ce_Source ev) = [] then ep_Service (ce_Destination ev)
                           else ep_Service (ce_Source ev))"
  show ?thesis
  proof (cases "svc = []")
    case True
    then show ?thesis using wf by (simp add: ObserveConnection_def svc_def Let_def)
  next
    case False
    obtain sm a1 where g: "getOrCreate a svc (ep_Namespace (ce_Source ev)) = (sm, a1)"
      by (cases "getOrCreate a svc (ep_Namespace (ce_Source ev))")
    from getOrCreate_wellFormed [OF wf g] have l: "length (latencyCounts sm) = length (buckets a) + 1"
      and b: "buckets a1 = buckets a" and wf1: "wellFormed a1" by simp_all
    define sm1 where "sm1 = sm\<lparr>callCount := callCount sm + 1,
                        bytesSent := bytesSent sm + ce_BytesSent ev,
                        bytesRecv := bytesRecv sm + ce_BytesRecv ev\<rparr>"
    have l1: "length (latencyCounts sm1) = length (buckets a1) + 1"
      using l b by (simp add: sm1_def)
    show ?thesis
    proof (cases "ce_DurationNs ev > 0")
      case True
      from observeLatency_total [OF l1, of "real (unat (ce_DurationNs ev))"] obtain sm2 where
        o: "observeLatency (buckets a1) sm1 (real (unat (ce_DurationNs ev))) = Inr sm2"
        and l2: "length (latencyCounts sm2) = length (buckets a1) + 1" by blast
      have "ObserveConnection a ev = Inr (a1\<lparr>services := (services a1)(svc \<mapsto> sm2)\<rparr>)"
        using False True g o
        by (simp add: ObserveConnection_def svc_def [symmetric] Let_def sm1_def [symmetric])
      then show ?thesis using wellFormed_update [OF wf1 l2] b by simp
    next
      case F2: False
      have "ObserveConnection a ev = Inr (a1\<lparr>services := (services a1)(svc \<mapsto> sm1)\<rparr>)"
        using False F2 g
        by (simp add: ObserveConnection_def svc_def [symmetric] Let_def sm1_def [symmetric])
      then show ?thesis using wellFormed_update [OF wf1 l1] b by simp
    qed
  qed
qed

lemma ObserveHTTPRequest_wellFormed:
  assumes wf: "wellFormed a"
  shows "\<exists>a'. ObserveHTTPRequest a ev = Inr a' \<and> wellFormed a' \<and> buckets a' = buckets a"
proof -
  define svc where "svc = (if ep_Service (he_Destination ev) = [] then ep_Service (he_Source ev)
                           else ep_Service (he_Destination ev))"
  show ?thesis
  proof (cases "svc = []")
    case True
    then show ?thesis using wf by (simp add: ObserveHTTPRequest_def svc_def Let_def)
  next
    case False
    obtain sm a1 where g: "getOrCreate a svc (ep_Namespace (he_Destination ev)) = (sm, a1)"
      by (cases "getOrCreate a svc (ep_Namespace (he_Destination ev))")
    from getOrCreate_wellFormed [OF wf g] have l: "length (latencyCounts sm) = length (buckets a) + 1"
      and b: "buckets a1 = buckets a" and wf1: "wellFormed a1" by simp_all
    define sm2 where "sm2 = (if he_StatusCode ev \<ge> 500
                             then sm\<lparr>callCount := callCount sm + 1\<rparr>
                                    \<lparr>errorCount := errorCount (sm\<lparr>callCount := callCount sm + 1\<rparr>) + 1\<rparr>
                             else sm\<lparr>callCount := callCount sm + 1\<rparr>)"
    have l1: "length (latencyCounts sm2) = length (buckets a1) + 1"
      using l b by (simp add: sm2_def)
    show ?thesis
    proof (cases "he_LatencyNs ev > 0")
      case True
      from observeLatency_total [OF l1, of "real (unat (he_LatencyNs ev))"] obtain sm3 where
        o: "observeLatency (buckets a1) sm2 (real (unat (he_LatencyNs ev))) = Inr sm3"
        and l3: "length (latencyCounts sm3) = length (buckets a1) + 1" by blast
      have "ObserveHTTPRequest a ev = Inr (a1\<lparr>services := (services a1)(svc \<mapsto> sm3)\<rparr>)"
        using False True g o
        by (simp add: ObserveHTTPRequest_def svc_def [symmetric] Let_def sm2_def [symmetric])
      then show ?thesis using wellFormed_update [OF wf1 l3] b by simp
    next
      case F2: False
      have "ObserveHTTPRequest a ev = Inr (a1\<lparr>services := (services a1)(svc \<mapsto> sm2)\<rparr>)"
        using False F2 g
        by (simp add: ObserveHTTPRequest_def svc_def [symmetric] Let_def sm2_def [symmetric])
      then show ?thesis using wellFormed_update [OF wf1 l1] b by simp
    qed
  qed
qed

lemma observeConnections_wellFormed:
  "wellFormed a \<Longrightarrow> \<exists>a'. observeConnections a cs = Inr a' \<and> wellFormed a'"
proof (induction cs arbitrary: a)
  case Nil
  then show ?case by simp
next
  case (Cons c cs)
  from ObserveConnection_wellFormed [OF Cons.prems, of c] obtain a1 where
    "ObserveConnection a c = Inr a1" and "wellFormed a1" by blast
  with Cons.IH [of a1] show ?case by simp
qed

lemma observeHTTPRequests_wellFormed:
  "wellFormed a \<Longrightarrow> \<exists>a'. observeHTTPRequests a rs = Inr a' \<and> wellFormed a'"
proof (induction rs arbitrary: a)
  case Nil
  then show ?case by simp
next
  case (Cons r rs)
  from ObserveHTTPRequest_wellFormed [OF Cons.prems, of r] obtain a1 where
    "ObserveHTTPRequest a r = Inr a1" and "wellFormed a1" by blast
  with Cons.IH [of a1] show ?case by simp
qed


lemma processConnections_cases:
  assumes wf: "wellFormed (aggregator s)"
  shows "(ebp_Connections batch = [] \<and> processConnections W s batch acc = Inr (None, acc, s))
       \<or> (\<exists>err w. ebp_Connections batch \<noteq> []
             \<and> WriteConnectionEvents W (store s) (decodeConnections batch) = (Some err, w)
             \<and> processConnections W s batch acc = Inr (Some err, acc, s\<lparr>store := w\<rparr>))
       \<or> (\<exists>w a. ebp_Connections batch \<noteq> []
             \<and> WriteConnectionEvents W (store s) (decodeConnections batch) = (None, w)
             \<and> observeConnections (aggregator s) (decodeConnections batch) = Inr a
             \<and> wellFormed a
             \<and> processConnections W s batch acc =
                 Inr (None, acc + of_nat (length (ebp_Connections batch)),
                      s\<lparr>store := w, aggregator := a\<rparr>))"
proof (cases "ebp_Connections batch = []")
  case True
  then show ?thesis by (simp add: processConnections_def)
next
  case False
  obtain e w where wr: "WriteConnectionEvents W (store s) (decodeConnections batch) = (e, w)"
    by (cases "WriteConnectionEvents W (store s) (decodeConnections batch)")
  show ?thesis
  proof (cases e)
    case None
    from observeConnections_wellFormed [OF wf, of "decodeConnections batch"] obtain a where
      o: "observeConnections (aggregator s) (decodeConnections batch) = Inr a" and wa: "wellFormed a"
      by blast
    have "processConnections W s batch acc =
                 Inr (None, acc + of_nat (length (ebp_Connections batch)),
                      s\<lparr>store := w, aggregator := a\<rparr>)"
      using False wr None o by (simp add: processConnections_def Let_def decodeConnections_def)
    then show ?thesis using False wr None o wa by blast
  next
    case (Some err)
    have "processConnections W s batch acc = Inr (Some err, acc, s\<lparr>store := w\<rparr>)"
      using False wr Some by (simp add: processConnections_def Let_def)
    then show ?thesis using False wr Some by blast
  qed
qed

lemma processRequests_cases:
  assumes wf: "wellFormed (aggregator s)"
  shows "(ebp_HttpRequests batch = [] \<and> processRequests W s batch acc = Inr (None, acc, s))
       \<or> (\<exists>err w. ebp_HttpRequests batch \<noteq> []
             \<and> WriteHTTPRequestEvents W (store s) (decodeRequests batch) = (Some err, w)
             \<and> processRequests W s batch acc = Inr (Some err, acc, s\<lparr>store := w\<rparr>))
       \<or> (\<exists>w a. ebp_HttpRequests batch \<noteq> []
             \<and> WriteHTTPRequestEvents W (store s) (decodeRequests batch) = (None, w)
             \<and> observeHTTPRequests (aggregator s) (decodeRequests batch) = Inr a
             \<and> wellFormed a
             \<and> processRequests W s batch acc =
                 Inr (None, acc + of_nat (length (ebp_HttpRequests batch)),
                      s\<lparr>store := w, aggregator := a\<rparr>))"
proof (cases "ebp_HttpRequests batch = []")
  case True
  then show ?thesis by (simp add: processRequests_def)
next
  case False
  obtain e w where wr: "WriteHTTPRequestEvents W (store s) (decodeRequests batch) = (e, w)"
    by (cases "WriteHTTPRequestEvents W (store s) (decodeRequests batch)")
  show ?thesis
  proof (cases e)
    case None
    from observeHTTPRequests_wellFormed [OF wf, of "decodeRequests batch"] obtain a where
      o: "observeHTTPRequests (aggregator s) (decodeRequests batch) = Inr a" and wa: "wellFormed a"
      by blast
    have "processRequests W s batch acc =
                 Inr (None, acc + of_nat (length (ebp_HttpRequests batch)),
                      s\<lparr>store := w, aggregator := a\<rparr>)"
      using False wr None o by (simp add: processRequests_def Let_def decodeRequests_def)
    then show ?thesis using False wr None o wa by blast
  next
    case (Some err)
    have "processRequests W s batch acc = Inr (Some err, acc, s\<lparr>store := w\<rparr>)"
      using False wr Some by (simp add: processRequests_def Let_def)
    then show ?thesis using False wr Some by blast
  qed
qed

lemma processConnections_wellFormed:
  assumes wf: "wellFormed (aggregator s)"
  shows "\<exists>err acc' s1. processConnections W s batch acc = Inr (err, acc', s1)
           \<and> wellFormed (aggregator s1)"
  using processConnections_cases [OF wf, of batch W acc] wf by auto

lemma processRequests_wellFormed:
  assumes wf: "wellFormed (aggregator s)"
  shows "\<exists>err acc' s1. processRequests W s batch acc = Inr (err, acc', s1)
           \<and> wellFormed (aggregator s1)"
  using processRequests_cases [OF wf, of batch W acc] wf by auto

lemma processBatch_wellFormed:
  assumes wf: "wellFormed (aggregator s)"
  shows "\<exists>acc err s1. processBatch W s batch = Inr ((acc, err), s1) \<and> wellFormed (aggregator s1)"
proof -
  from processConnections_wellFormed [OF wf, of W batch 0] obtain e1 acc1 s1 where
    c: "processConnections W s batch 0 = Inr (e1, acc1, s1)" and wf1: "wellFormed (aggregator s1)"
    by blast
  show ?thesis
  proof (cases e1)
    case (Some err)
    then show ?thesis using c wf1 by (simp add: processBatch_def)
  next
    case None
    from processRequests_wellFormed [OF wf1, of W batch acc1] obtain e2 acc2 s2 where
      r: "processRequests W s1 batch acc1 = Inr (e2, acc2, s2)" and wf2: "wellFormed (aggregator s2)"
      by blast
    show ?thesis using c None r wf2 by (cases e2) (simp_all add: processBatch_def)
  qed
qed

lemma streamLoop_acknowledges:
  assumes wf: "wellFormed (aggregator s)"
  shows "\<exists>t s'. streamLoop W s total_n (map RecvBatch bs) = Inr (SendAndClose t, s')"
  using wf
proof (induction bs arbitrary: s total_n)
  case Nil
  show ?case by simp
next
  case (Cons b bs)
  from processBatch_wellFormed [OF Cons.prems, of W b] obtain acc err s1 where
    p: "processBatch W s b = Inr ((acc, err), s1)" and wf1: "wellFormed (aggregator s1)" by blast
  let ?s2 = "s1\<lparr>srv_logger := srv_logger s1 @
                   [case err of Some e \<Rightarrow> ''failed to process batch'' | None \<Rightarrow> ''processed batch'']\<rparr>"
  have "wellFormed (aggregator ?s2)" using wf1 by simp
  from Cons.IH [OF this, of "total_n + acc"] show ?case using p by simp
qed


lemma NewAggregator_wellFormed: "wellFormed NewAggregator"
  by (simp add: wellFormed_def NewAggregator_def)

lemma write_error_outcomes:
  assumes wf: "wellFormed (aggregator s)"
  shows "(\<exists>t s'. StreamEvents W s (map RecvBatch bs) = Inr (SendAndClose t, s'))
       \<and> (\<forall>err w. ebp_Connections batch \<noteq> []
             \<and> WriteConnectionEvents W (store s) (decodeConnections batch) = (Some err, w) \<longrightarrow>
             processBatch W s batch = Inr ((0, Some err), s\<lparr>store := w\<rparr>)
             \<and> streamLoop W s total_n (RecvBatch batch # rest)
                 = streamLoop W
                     (s\<lparr>store := w, srv_logger := srv_logger s @ [''failed to process batch'']\<rparr>)
                     total_n rest)
       \<and> (\<forall>acc s1 err w. processConnections W s batch 0 = Inr (None, acc, s1)
             \<and> ebp_HttpRequests batch \<noteq> []
             \<and> WriteHTTPRequestEvents W (store s1) (decodeRequests batch) = (Some err, w) \<longrightarrow>
             observeConnections (aggregator s) (decodeConnections batch) = Inr (aggregator s1)
             \<and> acc = of_nat (length (ebp_Connections batch))
             \<and> processBatch W s batch = Inr ((acc, Some err), s1\<lparr>store := w\<rparr>)
             \<and> streamLoop W s total_n (RecvBatch batch # rest)
                 = streamLoop W
                     (s1\<lparr>store := w, srv_logger := srv_logger s1 @ [''failed to process batch'']\<rparr>)
                     (total_n + acc) rest)
       \<and> (\<forall>w1 w2. ebp_Connections batch \<noteq> [] \<and> ebp_HttpRequests batch \<noteq> []
             \<and> WriteConnectionEvents W (store s) (decodeConnections batch) = (None, w1)
             \<and> WriteHTTPRequestEvents W w1 (decodeRequests batch) = (None, w2) \<longrightarrow>
             (\<exists>a1 a2. observeConnections (aggregator s) (decodeConnections batch) = Inr a1
                \<and> observeHTTPRequests a1 (decodeRequests batch) = Inr a2
                \<and> processBatch W s batch =
                    Inr ((of_nat (length (ebp_Connections batch))
                            + of_nat (length (ebp_HttpRequests batch)), None),
                         s\<lparr>store := w2, aggregator := a2,
                           accepted := accepted s + (of_nat (length (ebp_Connections batch))
                                         + of_nat (length (ebp_HttpRequests batch)))\<rparr>)))"
proof (intro conjI allI impI)
  show "\<exists>t s'. StreamEvents W s (map RecvBatch bs) = Inr (SendAndClose t, s')"
    unfolding StreamEvents_def by (rule streamLoop_acknowledges [OF wf])
next
  fix err w
  assume h: "ebp_Connections batch \<noteq> []
             \<and> WriteConnectionEvents W (store s) (decodeConnections batch) = (Some err, w)"
  then have c: "processConnections W s batch 0 = Inr (Some err, 0, s\<lparr>store := w\<rparr>)"
    by (simp add: processConnections_def Let_def)
  then show p: "processBatch W s batch = Inr ((0, Some err), s\<lparr>store := w\<rparr>)"
    by (simp add: processBatch_def)
  show "streamLoop W s total_n (RecvBatch batch # rest)
                 = streamLoop W
                     (s\<lparr>store := w, srv_logger := srv_logger s @ [''failed to process batch'']\<rparr>)
                     total_n rest"
    using p by simp
next
  fix acc s1 err w
  assume h: "processConnections W s batch 0 = Inr (None, acc, s1)
             \<and> ebp_HttpRequests batch \<noteq> []
             \<and> WriteHTTPRequestEvents W (store s1) (decodeRequests batch) = (Some err, w)"
  from processConnections_cases [OF wf, of batch W 0] h
  show o: "observeConnections (aggregator s) (decodeConnections batch) = Inr (aggregator s1)"
    by (auto simp: decodeConnections_def)
  from processConnections_cases [OF wf, of batch W 0] h
  show a: "acc = of_nat (length (ebp_Connections batch))"
    by auto
  from h have r: "processRequests W s1 batch acc = Inr (Some err, acc, s1\<lparr>store := w\<rparr>)"
    by (simp add: processRequests_def Let_def)
  with h show p: "processBatch W s batch = Inr ((acc, Some err), s1\<lparr>store := w\<rparr>)"
    by (simp add: processBatch_def)
  show "streamLoop W s total_n (RecvBatch batch # rest)
                 = streamLoop W
                     (s1\<lparr>store := w, srv_logger := srv_logger s1 @ [''failed to process batch'']\<rparr>)
                     (total_n + acc) rest"
    using p by simp
next
  fix w1 w2
  assume h: "ebp_Connections batch \<noteq> [] \<and> ebp_HttpRequests batch \<noteq> []
             \<and> WriteConnectionEvents W (store s) (decodeConnections batch) = (None, w1)
             \<and> WriteHTTPRequestEvents W w1 (decodeRequests batch) = (None, w2)"
  from observeConnections_wellFormed [OF wf, of "decodeConnections batch"] obtain a1 where
    o1: "observeConnections (aggregator s) (decodeConnections batch) = Inr a1"
    and wf1: "wellFormed a1" by blast
  from observeHTTPRequests_wellFormed [OF wf1, of "decodeRequests batch"] obtain a2 where
    o2: "observeHTTPRequests a1 (decodeRequests batch) = Inr a2" by blast
  have c: "processConnections W s batch 0 =
             Inr (None, of_nat (length (ebp_Connections batch)), s\<lparr>store := w1, aggregator := a1\<rparr>)"
    using h o1 by (simp add: processConnections_def Let_def decodeConnections_def)
  have r: "processRequests W (s\<lparr>store := w1, aggregator := a1\<rparr>) batch
             (of_nat (length (ebp_Connections batch))) =
             Inr (None, of_nat (length (ebp_Connections batch))
                          + of_nat (length (ebp_HttpRequests batch)),
                  s\<lparr>store := w2, aggregator := a2\<rparr>)"
    using h o2 by (simp add: processRequests_def Let_def decodeRequests_def)
  have "processBatch W s batch =
                    Inr ((of_nat (length (ebp_Connections batch))
                            + of_nat (length (ebp_HttpRequests batch)), None),
                         s\<lparr>store := w2, aggregator := a2,
                           accepted := accepted s + (of_nat (length (ebp_Connections batch))
                                         + of_nat (length (ebp_HttpRequests batch)))\<rparr>)"
    using c r by (simp add: processBatch_def)
  then show "\<exists>a1 a2. observeConnections (aggregator s) (decodeConnections batch) = Inr a1
                \<and> observeHTTPRequests a1 (decodeRequests batch) = Inr a2
                \<and> processBatch W s batch =
                    Inr ((of_nat (length (ebp_Connections batch))
                            + of_nat (length (ebp_HttpRequests batch)), None),
                         s\<lparr>store := w2, aggregator := a2,
                           accepted := accepted s + (of_nat (length (ebp_Connections batch))
                                         + of_nat (length (ebp_HttpRequests batch)))\<rparr>)"
    using o1 o2 by blast
qed

lemma streamLoop_step:
  assumes wf: "wellFormed (aggregator s)"
  shows "\<exists>acc err s1. processBatch W s batch = Inr ((acc, err), s1)
           \<and> wellFormed (aggregator s1)
           \<and> (\<forall>total_n rest. streamLoop W s total_n (RecvBatch batch # rest)
                = streamLoop W
                    (s1\<lparr>srv_logger := srv_logger s1 @
                         [case err of Some e \<Rightarrow> ''failed to process batch''
                          | None \<Rightarrow> ''processed batch'']\<rparr>)
                    (total_n + acc) rest)"
proof -
  from processBatch_wellFormed [OF wf, of W batch] obtain acc err s1 where
    p: "processBatch W s batch = Inr ((acc, err), s1)" and wf1: "wellFormed (aggregator s1)" by blast
  show ?thesis using p wf1 by (intro exI [of _ acc] exI [of _ err] exI [of _ s1]) simp
qed

lemma streamLoop_prefix:
  assumes wf: "wellFormed (aggregator s)"
  shows "\<exists>t' s'. wellFormed (aggregator s')
           \<and> (\<forall>more. streamLoop W s total_n (map RecvBatch bs @ more) = streamLoop W s' t' more)"
  using wf
proof (induction bs arbitrary: s total_n)
  case Nil
  then show ?case by auto
next
  case (Cons b bs)
  from streamLoop_step [OF Cons.prems, of W b] obtain acc err s1 where
    p: "processBatch W s b = Inr ((acc, err), s1)"
    and wf1: "wellFormed (aggregator s1)"
    and st: "\<forall>total_n rest. streamLoop W s total_n (RecvBatch b # rest)
                = streamLoop W
                    (s1\<lparr>srv_logger := srv_logger s1 @
                         [case err of Some e \<Rightarrow> ''failed to process batch''
                          | None \<Rightarrow> ''processed batch'']\<rparr>)
                    (total_n + acc) rest"
    by blast
  let ?s2 = "s1\<lparr>srv_logger := srv_logger s1 @
                         [case err of Some e \<Rightarrow> ''failed to process batch''
                          | None \<Rightarrow> ''processed batch'']\<rparr>"
  have wf2: "wellFormed (aggregator ?s2)" using wf1 by simp
  from Cons.IH [OF wf2, of "total_n + acc"] obtain t' s' where
    wf': "wellFormed (aggregator s')"
    and r: "\<forall>more. streamLoop W ?s2 (total_n + acc) (map RecvBatch bs @ more) = streamLoop W s' t' more"
    by blast
  have "\<forall>more. streamLoop W s total_n (map RecvBatch (b # bs) @ more) = streamLoop W s' t' more"
    using st r by simp
  then show ?case using wf' by blast
qed

lemma processBatch_after_connections:
  assumes wf: "wellFormed (aggregator s)"
    and ok: "(ebp_Connections batch = [] \<and> w1 = store s \<and> a1 = aggregator s \<and> n1 = 0)
           \<or> (ebp_Connections batch \<noteq> []
               \<and> WriteConnectionEvents W (store s) (decodeConnections batch) = (None, w1)
               \<and> observeConnections (aggregator s) (decodeConnections batch) = Inr a1
               \<and> n1 = of_nat (length (ebp_Connections batch)))"
  shows "(ebp_HttpRequests batch = [] \<longrightarrow>
            processBatch W s batch =
              Inr ((n1, None), s\<lparr>store := w1, aggregator := a1, accepted := accepted s + n1\<rparr>))
       \<and> (\<forall>e w2. ebp_HttpRequests batch \<noteq> []
             \<and> WriteHTTPRequestEvents W w1 (decodeRequests batch) = (Some e, w2) \<longrightarrow>
            processBatch W s batch = Inr ((n1, Some e), s\<lparr>store := w2, aggregator := a1\<rparr>))
       \<and> (\<forall>w2. ebp_HttpRequests batch \<noteq> []
             \<and> WriteHTTPRequestEvents W w1 (decodeRequests batch) = (None, w2) \<longrightarrow>
            (\<exists>a2. observeHTTPRequests a1 (decodeRequests batch) = Inr a2
               \<and> processBatch W s batch =
                   Inr ((n1 + of_nat (length (ebp_HttpRequests batch)), None),
                        s\<lparr>store := w2, aggregator := a2,
                          accepted := accepted s + (n1 + of_nat (length (ebp_HttpRequests batch)))\<rparr>)))"
proof -
  have c: "processConnections W s batch 0 = Inr (None, n1, s\<lparr>store := w1, aggregator := a1\<rparr>)"
    using ok by (auto simp: processConnections_def Let_def decodeConnections_def)
  have wf1: "wellFormed a1"
  proof -
    from ok show ?thesis
    proof
      assume "ebp_Connections batch = [] \<and> w1 = store s \<and> a1 = aggregator s \<and> n1 = 0"
      then show ?thesis using wf by simp
    next
      assume h: "ebp_Connections batch \<noteq> []
               \<and> WriteConnectionEvents W (store s) (decodeConnections batch) = (None, w1)
               \<and> observeConnections (aggregator s) (decodeConnections batch) = Inr a1
               \<and> n1 = of_nat (length (ebp_Connections batch))"
      from observeConnections_wellFormed [OF wf, of "decodeConnections batch"] h
      show ?thesis by auto
    qed
  qed
  let ?s1 = "s\<lparr>store := w1, aggregator := a1\<rparr>"
  show ?thesis
  proof (intro conjI allI impI)
    assume "ebp_HttpRequests batch = []"
    then have "processRequests W ?s1 batch n1 = Inr (None, n1, ?s1)"
      by (simp add: processRequests_def)
    then show "processBatch W s batch =
              Inr ((n1, None), s\<lparr>store := w1, aggregator := a1, accepted := accepted s + n1\<rparr>)"
      using c by (simp add: processBatch_def)
  next
    fix e w2
    assume h: "ebp_HttpRequests batch \<noteq> []
             \<and> WriteHTTPRequestEvents W w1 (decodeRequests batch) = (Some e, w2)"
    then have "processRequests W ?s1 batch n1 = Inr (Some e, n1, ?s1\<lparr>store := w2\<rparr>)"
      by (simp add: processRequests_def Let_def)
    then show "processBatch W s batch = Inr ((n1, Some e), s\<lparr>store := w2, aggregator := a1\<rparr>)"
      using c by (simp add: processBatch_def)
  next
    fix w2
    assume h: "ebp_HttpRequests batch \<noteq> []
             \<and> WriteHTTPRequestEvents W w1 (decodeRequests batch) = (None, w2)"
    from observeHTTPRequests_wellFormed [OF wf1, of "decodeRequests batch"] obtain a2 where
      o2: "observeHTTPRequests a1 (decodeRequests batch) = Inr a2" by blast
    have "processRequests W ?s1 batch n1 =
            Inr (None, n1 + of_nat (length (ebp_HttpRequests batch)),
                 ?s1\<lparr>store := w2, aggregator := a2\<rparr>)"
      using h o2 by (simp add: processRequests_def Let_def decodeRequests_def)
    then have "processBatch W s batch =
                   Inr ((n1 + of_nat (length (ebp_HttpRequests batch)), None),
                        s\<lparr>store := w2, aggregator := a2,
                          accepted := accepted s + (n1 + of_nat (length (ebp_HttpRequests batch)))\<rparr>)"
      using c by (simp add: processBatch_def)
    then show "\<exists>a2. observeHTTPRequests a1 (decodeRequests batch) = Inr a2
               \<and> processBatch W s batch =
                   Inr ((n1 + of_nat (length (ebp_HttpRequests batch)), None),
                        s\<lparr>store := w2, aggregator := a2,
                          accepted := accepted s + (n1 + of_nat (length (ebp_HttpRequests batch)))\<rparr>)"
      using o2 by blast
  qed
qed

lemma mixedBatch_lengths:
  "ebp_Connections mixedBatch \<noteq> []" "ebp_HttpRequests mixedBatch \<noteq> []"
  "length (ebp_Connections mixedBatch) = 1" "length (ebp_HttpRequests mixedBatch) = 1"
  by (simp_all add: mixedBatch_def)

text \<open>
  Claim C5, as the code has it. With a well-formed aggregator: every batch received is
  processed without a panic and the loop goes on with the next receive, whether the
  batch's writes failed or not, carrying the server \<open>processBatch\<close> left and the total
  grown by the count it returned; at the end of the stream the total is acknowledged. So
  a stream of batches always ends with the acknowledgement, whatever writes fail, and
  after any batches the rest of the stream is handled from the state they left. What
  \<open>processBatch\<close> returns and leaves is: when the write of the connection events fails,
  a count of zero and the error, only the store changed (as the writer left it), the
  request events of the batch not processed; when the connection half went through (no
  connection events, or written and then observed by the aggregator) and the write of the
  request events fails, the count of the connection events and the error; when the
  connection half went through and the request half too (no request events, or written and
  then observed), the count of all the events of the batch, which is added to the
  server's accepted counter, and no error.
\<close>

theorem write_error_keeps_stream_open:
  assumes wf: "wellFormed (aggregator s)"
  shows "(\<exists>t s'. StreamEvents W s (map RecvBatch bs) = Inr (SendAndClose t, s'))
       \<and> (\<forall>err w. ebp_Connections batch \<noteq> []
             \<and> WriteConnectionEvents W (store s) (decodeConnections batch) = (Some err, w) \<longrightarrow>
             processBatch W s batch = Inr ((0, Some err), s\<lparr>store := w\<rparr>)
             \<and> streamLoop W s total_n (RecvBatch batch # rest)
                 = streamLoop W
                     (s\<lparr>store := w, srv_logger := srv_logger s @ [''failed to process batch'']\<rparr>)
                     total_n rest)
       \<and> (\<forall>acc s1 err w. processConnections W s batch 0 = Inr (None, acc, s1)
             \<and> ebp_HttpRequests batch \<noteq> []
             \<and> WriteHTTPRequestEvents W (store s1) (decodeRequests batch) = (Some err, w) \<longrightarrow>
             observeConnections (aggregator s) (decodeConnections batch) = Inr (aggregator s1)
             \<and> acc = of_nat (length (ebp_Connections batch))
             \<and> processBatch W s batch = Inr ((acc, Some err), s1\<lparr>store := w\<rparr>)
             \<and> streamLoop W s total_n (RecvBatch batch # rest)
                 = streamLoop W
                     (s1\<lparr>store := w, srv_logger := srv_logger s1 @ [''failed to process batch'']\<rparr>)
                     (total_n + acc) rest)
       \<and> (\<forall>w1 w2. ebp_Connections batch \<noteq> [] \<and> ebp_HttpRequests batch \<noteq> []
             \<and> WriteConnectionEvents W (store s) (decodeConnections batch) = (None, w1)
             \<and> WriteHTTPRequestEvents W w1 (decodeRequests batch) = (None, w2) \<longrightarrow>
             (\<exists>a1 a2. observeConnections (aggregator s) (decodeConnections batch) = Inr a1
                \<and> observeHTTPRequests a1 (decodeRequests batch) = Inr a2
                \<and> processBatch W s batch =
                    Inr ((of_nat (length (ebp_Connections batch))
                            + of_nat (length (ebp_HttpRequests batch)), None),
                         s\<lparr>store := w2, aggregator := a2,
                           accepted := accepted s + (of_nat (length (ebp_Connections batch))
                                         + of_nat (length (ebp_HttpRequests batch)))\<rparr>)))
       \<and> streamLoop W s total_n [] =
           Inr (SendAndClose total_n, s\<lparr>srv_logger := srv_logger s @ [''stream finished'']\<rparr>)
       \<and> (\<exists>acc err s1. processBatch W s batch = Inr ((acc, err), s1)
             \<and> wellFormed (aggregator s1)
             \<and> (\<forall>t more. streamLoop W s t (RecvBatch batch # more)
                  = streamLoop W
                      (s1\<lparr>srv_logger := srv_logger s1 @
                           [case err of Some e \<Rightarrow> ''failed to process batch''
                            | None \<Rightarrow> ''processed batch'']\<rparr>)
                      (t + acc) more))
       \<and> (\<exists>t' s'. wellFormed (aggregator s')
             \<and> (\<forall>more. streamLoop W s total_n (map RecvBatch bs @ more) = streamLoop W s' t' more))
       \<and> (\<forall>w1. ebp_Connections batch \<noteq> []
             \<and> WriteConnectionEvents W (store s) (decodeConnections batch) = (None, w1) \<longrightarrow>
             (\<exists>a1. observeConnections (aggregator s) (decodeConnections batch) = Inr a1
                \<and> wellFormed a1))
       \<and> (\<forall>w1 a1 (n1 :: 64 word).
             (ebp_Connections batch = [] \<and> w1 = store s \<and> a1 = aggregator s \<and> n1 = 0)
             \<or> (ebp_Connections batch \<noteq> []
                 \<and> WriteConnectionEvents W (store s) (decodeConnections batch) = (None, w1)
                 \<and> observeConnections (aggregator s) (decodeConnections batch) = Inr a1
                 \<and> n1 = of_nat (length (ebp_Connections batch))) \<longrightarrow>
             (ebp_HttpRequests batch = [] \<longrightarrow>
                processBatch W s batch =
                  Inr ((n1, None), s\<lparr>store := w1, aggregator := a1, accepted := accepted s + n1\<rparr>))
             \<and> (\<forall>e w2. ebp_HttpRequests batch \<noteq> []
                   \<and> WriteHTTPRequestEvents W w1 (decodeRequests batch) = (Some e, w2) \<longrightarrow>
                  processBatch W s batch = Inr ((n1, Some e), s\<lparr>store := w2, aggregator := a1\<rparr>))
             \<and> (\<forall>w2. ebp_HttpRequests batch \<noteq> []
                   \<and> WriteHTTPRequestEvents W w1 (decodeRequests batch) = (None, w2) \<longrightarrow>
                  (\<exists>a2. observeHTTPRequests a1 (decodeRequests batch) = Inr a2
                     \<and> processBatch W s batch =
                         Inr ((n1 + of_nat (length (ebp_HttpRequests batch)), None),
                              s\<lparr>store := w2, aggregator := a2,
                                accepted := accepted s
                                  + (n1 + of_nat (length (ebp_HttpRequests batch)))\<rparr>))))"
proof -
  note old = write_error_outcomes [OF wf, of W bs batch total_n rest]
  have eof: "streamLoop W s total_n [] =
           Inr (SendAndClose total_n, s\<lparr>srv_logger := srv_logger s @ [''stream finished'']\<rparr>)"
    by simp
  note step = streamLoop_step [OF wf, of W batch]
  note pre = streamLoop_prefix [OF wf, of W total_n bs]
  have conn: "\<forall>w1. ebp_Connections batch \<noteq> []
             \<and> WriteConnectionEvents W (store s) (decodeConnections batch) = (None, w1) \<longrightarrow>
             (\<exists>a1. observeConnections (aggregator s) (decodeConnections batch) = Inr a1
                \<and> wellFormed a1)"
    using observeConnections_wellFormed [OF wf, of "decodeConnections batch"] by blast
  have req: "\<forall>w1 a1 (n1 :: 64 word).
             (ebp_Connections batch = [] \<and> w1 = store s \<and> a1 = aggregator s \<and> n1 = 0)
             \<or> (ebp_Connections batch \<noteq> []
                 \<and> WriteConnectionEvents W (store s) (decodeConnections batch) = (None, w1)
                 \<and> observeConnections (aggregator s) (decodeConnections batch) = Inr a1
                 \<and> n1 = of_nat (length (ebp_Connections batch))) \<longrightarrow>
             (ebp_HttpRequests batch = [] \<longrightarrow>
                processBatch W s batch =
                  Inr ((n1, None), s\<lparr>store := w1, aggregator := a1, accepted := accepted s + n1\<rparr>))
             \<and> (\<forall>e w2. ebp_HttpRequests batch \<noteq> []
                   \<and> WriteHTTPRequestEvents W w1 (decodeRequests batch) = (Some e, w2) \<longrightarrow>
                  processBatch W s batch = Inr ((n1, Some e), s\<lparr>store := w2, aggregator := a1\<rparr>))
             \<and> (\<forall>w2. ebp_HttpRequests batch \<noteq> []
                   \<and> WriteHTTPRequestEvents W w1 (decodeRequests batch) = (None, w2) \<longrightarrow>
                  (\<exists>a2. observeHTTPRequests a1 (decodeRequests batch) = Inr a2
                     \<and> processBatch W s batch =
                         Inr ((n1 + of_nat (length (ebp_HttpRequests batch)), None),
                              s\<lparr>store := w2, aggregator := a2,
                                accepted := accepted s
                                  + (n1 + of_nat (length (ebp_HttpRequests batch)))\<rparr>)))"
  proof (intro allI impI)
    fix w1 a1 and n1 :: "64 word"
    assume ok: "(ebp_Connections batch = [] \<and> w1 = store s \<and> a1 = aggregator s \<and> n1 = 0)
             \<or> (ebp_Connections batch \<noteq> []
                 \<and> WriteConnectionEvents W (store s) (decodeConnections batch) = (None, w1)
                 \<and> observeConnections (aggregator s) (decodeConnections batch) = Inr a1
                 \<and> n1 = of_nat (length (ebp_Connections batch)))"
    show "(ebp_HttpRequests batch = [] \<longrightarrow>
                processBatch W s batch =
                  Inr ((n1, None), s\<lparr>store := w1, aggregator := a1, accepted := accepted s + n1\<rparr>))
             \<and> (\<forall>e w2. ebp_HttpRequests batch \<noteq> []
                   \<and> WriteHTTPRequestEvents W w1 (decodeRequests batch) = (Some e, w2) \<longrightarrow>
                  processBatch W s batch = Inr ((n1, Some e), s\<lparr>store := w2, aggregator := a1\<rparr>))
             \<and> (\<forall>w2. ebp_HttpRequests batch \<noteq> []
                   \<and> WriteHTTPRequestEvents W w1 (decodeRequests batch) = (None, w2) \<longrightarrow>
                  (\<exists>a2. observeHTTPRequests a1 (decodeRequests batch) = Inr a2
                     \<and> processBatch W s batch =
                         Inr ((n1 + of_nat (length (ebp_HttpRequests batch)), None),
                              s\<lparr>store := w2, aggregator := a2,
                                accepted := accepted s
                                  + (n1 + of_nat (length (ebp_HttpRequests batch)))\<rparr>)))"
      by (rule processBatch_after_connections [OF wf ok])
  qed
  show ?thesis
    by (intro conjI) (use old eof step pre conn req in \<open>blast+\<close>)
qed

text \<open>
  The claim as stated has every event after the failure point written and published. With
  a store that refuses connection events and takes request events, a batch of one
  connection event and one request event leaves the store empty and the aggregator as
  new: the request event, which comes after the failed write, is neither written nor
  observed, and the acknowledgement counts nothing.
\<close>

theorem write_error_drops_rest_of_batch_counterexample:
  "StreamEvents (recordingWriter True False) exampleServer
     [RecvBatch mixedBatch]
   = Inr (SendAndClose 0,
          \<lparr>store = ([], []), aggregator = NewAggregator,
           srv_logger = [''failed to process batch'', ''stream finished''], accepted = 0\<rparr>)
   \<and> length (ebp_HttpRequests mixedBatch) = 1"
  by (simp add: StreamEvents_def processBatch_def processConnections_def recordingWriter_def
        NewIngestionServer_def exampleServer_def mixedBatch_def Let_def)


theorem write_error_keeps_stream_open_witness:
  "wellFormed (aggregator exampleServer)
   \<and> (\<exists>t s'. StreamEvents (recordingWriter True False)
                exampleServer
                (map RecvBatch [mixedBatch, mixedBatch]) = Inr (SendAndClose t, s'))
   \<and> processBatch (recordingWriter True False) exampleServer
        mixedBatch
       = Inr ((0, Some ''unavailable''), exampleServer)
   \<and> (\<exists>s1. processBatch (recordingWriter False True)
              exampleServer mixedBatch
              = Inr ((1, Some ''unavailable''), s1)
          \<and> store s1 = (decodeConnections mixedBatch, []))
   \<and> (\<exists>s2. processBatch (recordingWriter False False)
              exampleServer mixedBatch
              = Inr ((2, None), s2)
          \<and> store s2 = (decodeConnections mixedBatch, decodeRequests mixedBatch)
          \<and> accepted s2 = 2)
   \<and> (\<exists>s'. StreamEvents (recordingWriter False False) exampleServer
              [RecvBatch mixedBatch, RecvBatch mixedBatch]
              = Inr (SendAndClose 4, s')
          \<and> store s' = (decodeConnections mixedBatch @ decodeConnections mixedBatch,
                         decodeRequests mixedBatch @ decodeRequests mixedBatch))
   \<and> (\<exists>s'. StreamEvents flakyWriter flakyServer [RecvBatch mixedBatch, RecvBatch mixedBatch]
              = Inr (SendAndClose 2, s')
          \<and> store s' = (0, decodeConnections mixedBatch, decodeRequests mixedBatch))"
proof -
  let ?s = "exampleServer"
  have wf: "wellFormed (aggregator ?s)"
    by (simp add: exampleServer_def NewIngestionServer_def NewAggregator_wellFormed)
  note ne = mixedBatch_lengths(1,2) and len = mixedBatch_lengths(3,4)
  have st: "store ?s = ([], [])" and ac: "accepted ?s = 0"
    by (simp_all add: exampleServer_def NewIngestionServer_def)
  note A = write_error_keeps_stream_open [OF wf, of "recordingWriter True False"
      "[mixedBatch, mixedBatch]" mixedBatch 0 "[]"]
  note B = write_error_keeps_stream_open [OF wf, of "recordingWriter False True"
      "[]" mixedBatch 0 "[]"]
  note D = write_error_keeps_stream_open [OF wf, of "recordingWriter False False"
      "[]" mixedBatch 0 "[RecvBatch mixedBatch]"]
  have a1: "\<exists>t s'. StreamEvents (recordingWriter True False) ?s
                (map RecvBatch [mixedBatch, mixedBatch]) = Inr (SendAndClose t, s')"
    by (rule A [THEN conjunct1])
  have wA: "WriteConnectionEvents (recordingWriter True False) (store ?s)
              (decodeConnections mixedBatch) = (Some ''unavailable'', ([], []))"
    by (simp add: recordingWriter_def st)
  have "processBatch (recordingWriter True False) ?s mixedBatch
          = Inr ((0, Some ''unavailable''), ?s\<lparr>store := ([], [])\<rparr>)"
    using A [THEN conjunct2, THEN conjunct1, rule_format, OF conjI, OF ne(1) wA] by simp
  then have a2: "processBatch (recordingWriter True False) ?s mixedBatch
          = Inr ((0, Some ''unavailable''), ?s)"
    by (simp add: exampleServer_def NewIngestionServer_def)
  from processConnections_cases [OF wf, of mixedBatch "recordingWriter False True" 0] ne(1)
  obtain w a where
    pc: "processConnections (recordingWriter False True) ?s mixedBatch 0
           = Inr (None, 0 + of_nat (length (ebp_Connections mixedBatch)),
                  ?s\<lparr>store := w, aggregator := a\<rparr>)"
    and ww: "WriteConnectionEvents (recordingWriter False True) (store ?s)
               (decodeConnections mixedBatch) = (None, w)"
    by (auto simp: recordingWriter_def)
  have w: "w = (decodeConnections mixedBatch, [])"
    using ww by (simp add: recordingWriter_def st)
  have wB: "WriteHTTPRequestEvents (recordingWriter False True)
              (store (?s\<lparr>store := w, aggregator := a\<rparr>)) (decodeRequests mixedBatch)
              = (Some ''unavailable'', w)"
    by (simp add: recordingWriter_def)
  have "processBatch (recordingWriter False True) ?s mixedBatch
          = Inr ((0 + of_nat (length (ebp_Connections mixedBatch)), Some ''unavailable''),
                 ?s\<lparr>store := w, aggregator := a\<rparr>\<lparr>store := w\<rparr>)"
    using B [THEN conjunct2, THEN conjunct2, THEN conjunct1, rule_format,
        OF conjI, OF pc conjI, OF ne(2) wB] by simp
  then have b: "\<exists>s1. processBatch (recordingWriter False True) ?s mixedBatch
              = Inr ((1, Some ''unavailable''), s1)
          \<and> store s1 = (decodeConnections mixedBatch, [])"
    using w len by simp
  let ?G = "recordingWriter False False"
  have wD1: "WriteConnectionEvents ?G (store ?s)
              (decodeConnections mixedBatch) = (None, (decodeConnections mixedBatch, []))"
    by (simp add: recordingWriter_def st)
  have wD2: "WriteHTTPRequestEvents ?G
              (decodeConnections mixedBatch, []) (decodeRequests mixedBatch)
              = (None, (decodeConnections mixedBatch, decodeRequests mixedBatch))"
    by (simp add: recordingWriter_def)
  from D [THEN conjunct2, THEN conjunct2, THEN conjunct2, THEN conjunct1, rule_format,
      OF conjI, OF ne(1) conjI, OF ne(2) conjI, OF wD1 wD2]
  obtain g2 where
    pD: "processBatch ?G ?s mixedBatch =
        Inr ((of_nat (length (ebp_Connections mixedBatch))
                + of_nat (length (ebp_HttpRequests mixedBatch)), None),
             ?s\<lparr>store := (decodeConnections mixedBatch, decodeRequests mixedBatch),
                aggregator := g2,
                accepted := accepted ?s + (of_nat (length (ebp_Connections mixedBatch))
                              + of_nat (length (ebp_HttpRequests mixedBatch)))\<rparr>)"
    by blast
  then have d: "\<exists>s2. processBatch ?G ?s mixedBatch
              = Inr ((2, None), s2)
          \<and> store s2 = (decodeConnections mixedBatch, decodeRequests mixedBatch)
          \<and> accepted s2 = 2"
    using len ac by simp
  from D [THEN conjunct2, THEN conjunct2, THEN conjunct2, THEN conjunct2, THEN conjunct2,
      THEN conjunct1]
  obtain acc1 err1 t1 where
    p1: "processBatch ?G ?s mixedBatch = Inr ((acc1, err1), t1)"
    and wt1: "wellFormed (aggregator t1)"
    and e1: "\<forall>t more. streamLoop ?G ?s t (RecvBatch mixedBatch # more)
                  = streamLoop ?G
                      (t1\<lparr>srv_logger := srv_logger t1 @
                           [case err1 of Some e \<Rightarrow> ''failed to process batch''
                            | None \<Rightarrow> ''processed batch'']\<rparr>)
                      (t + acc1) more"
    by blast
  from pD p1 have acc1: "acc1 = 2"
    and st1: "store t1 = (decodeConnections mixedBatch, decodeRequests mixedBatch)"
    by (simp_all add: len)
  let ?t1 = "t1\<lparr>srv_logger := srv_logger t1 @
                           [case err1 of Some e \<Rightarrow> ''failed to process batch''
                            | None \<Rightarrow> ''processed batch'']\<rparr>"
  have wt1': "wellFormed (aggregator ?t1)" using wt1 by simp
  note E = write_error_keeps_stream_open [OF wt1', of ?G "[]" mixedBatch 0 "[]"]
  have wE1: "WriteConnectionEvents ?G (store ?t1) (decodeConnections mixedBatch)
               = (None, (decodeConnections mixedBatch @ decodeConnections mixedBatch,
                         decodeRequests mixedBatch))"
    by (simp add: recordingWriter_def st1)
  have wE2: "WriteHTTPRequestEvents ?G
               (decodeConnections mixedBatch @ decodeConnections mixedBatch,
                decodeRequests mixedBatch) (decodeRequests mixedBatch)
               = (None, (decodeConnections mixedBatch @ decodeConnections mixedBatch,
                         decodeRequests mixedBatch @ decodeRequests mixedBatch))"
    by (simp add: recordingWriter_def)
  from E [THEN conjunct2, THEN conjunct2, THEN conjunct2, THEN conjunct1, rule_format,
      OF conjI, OF ne(1) conjI, OF ne(2) conjI, OF wE1 wE2]
  obtain g3 where
    pE: "processBatch ?G ?t1 mixedBatch =
        Inr ((of_nat (length (ebp_Connections mixedBatch))
                + of_nat (length (ebp_HttpRequests mixedBatch)), None),
             ?t1\<lparr>store := (decodeConnections mixedBatch @ decodeConnections mixedBatch,
                           decodeRequests mixedBatch @ decodeRequests mixedBatch),
                aggregator := g3,
                accepted := accepted ?t1 + (of_nat (length (ebp_Connections mixedBatch))
                              + of_nat (length (ebp_HttpRequests mixedBatch)))\<rparr>)"
    by blast
  from E [THEN conjunct2, THEN conjunct2, THEN conjunct2, THEN conjunct2, THEN conjunct2,
      THEN conjunct1]
  obtain acc2 err2 t2 where
    p2: "processBatch ?G ?t1 mixedBatch = Inr ((acc2, err2), t2)"
    and e2: "\<forall>t more. streamLoop ?G ?t1 t (RecvBatch mixedBatch # more)
                  = streamLoop ?G
                      (t2\<lparr>srv_logger := srv_logger t2 @
                           [case err2 of Some e \<Rightarrow> ''failed to process batch''
                            | None \<Rightarrow> ''processed batch'']\<rparr>)
                      (t + acc2) more"
    by blast
  from pE p2 have acc2: "acc2 = 2"
    and st2: "store t2 = (decodeConnections mixedBatch @ decodeConnections mixedBatch,
                          decodeRequests mixedBatch @ decodeRequests mixedBatch)"
    by (simp_all add: len)
  have "streamLoop ?G ?s 0 [RecvBatch mixedBatch, RecvBatch mixedBatch]
          = streamLoop ?G ?t1 (0 + acc1) [RecvBatch mixedBatch]"
    using e1 by blast
  also have "\<dots> = streamLoop ?G
                      (t2\<lparr>srv_logger := srv_logger t2 @
                           [case err2 of Some e \<Rightarrow> ''failed to process batch''
                            | None \<Rightarrow> ''processed batch'']\<rparr>)
                      (0 + acc1 + acc2) []"
    using e2 by blast
  finally have g: "\<exists>s'. StreamEvents ?G ?s [RecvBatch mixedBatch, RecvBatch mixedBatch]
              = Inr (SendAndClose 4, s')
          \<and> store s' = (decodeConnections mixedBatch @ decodeConnections mixedBatch,
                         decodeRequests mixedBatch @ decodeRequests mixedBatch)"
    unfolding StreamEvents_def using acc1 acc2 st2 by simp
  let ?W = flakyWriter
  let ?s0 = flakyServer
  have wf0: "wellFormed (aggregator ?s0)"
    by (simp add: flakyServer_def NewIngestionServer_def NewAggregator_wellFormed)
  have st0: "store ?s0 = (1, [], [])" by (simp add: flakyServer_def NewIngestionServer_def)
  have w0: "WriteConnectionEvents ?W (store ?s0) (decodeConnections mixedBatch)
              = (Some ''unavailable'', (0, [], []))"
    by (simp add: flakyWriter_def st0)
  let ?s1 = "?s0\<lparr>store := (0, [], []),
                  srv_logger := srv_logger ?s0 @ [''failed to process batch'']\<rparr>"
  note T1 = write_error_keeps_stream_open [OF wf0, of ?W "[]" mixedBatch 0 "[RecvBatch mixedBatch]"]
  note T1c = T1 [THEN conjunct2, THEN conjunct1, rule_format, OF conjI, OF ne(1) w0]
  have f1: "streamLoop ?W ?s0 0 [RecvBatch mixedBatch, RecvBatch mixedBatch]
              = streamLoop ?W ?s1 0 [RecvBatch mixedBatch]"
    using T1c by simp
  have wf1: "wellFormed (aggregator ?s1)" using wf0 by simp
  note T2 = write_error_keeps_stream_open [OF wf1, of ?W "[]" mixedBatch 0 "[]"]
  have w1: "WriteConnectionEvents ?W (store ?s1) (decodeConnections mixedBatch)
              = (None, (0, decodeConnections mixedBatch, []))"
    by (simp add: flakyWriter_def)
  have w2: "WriteHTTPRequestEvents ?W (0, decodeConnections mixedBatch, [])
              (decodeRequests mixedBatch)
              = (None, (0, decodeConnections mixedBatch, decodeRequests mixedBatch))"
    by (simp add: flakyWriter_def)
  from T2 [THEN conjunct2, THEN conjunct2, THEN conjunct2, THEN conjunct1, rule_format,
      OF conjI, OF ne(1) conjI, OF ne(2) conjI, OF w1 w2]
  obtain h2 where
    p: "processBatch ?W ?s1 mixedBatch =
          Inr ((of_nat (length (ebp_Connections mixedBatch))
                  + of_nat (length (ebp_HttpRequests mixedBatch)), None),
               ?s1\<lparr>store := (0, decodeConnections mixedBatch, decodeRequests mixedBatch),
                   aggregator := h2,
                   accepted := accepted ?s1 + (of_nat (length (ebp_Connections mixedBatch))
                                 + of_nat (length (ebp_HttpRequests mixedBatch)))\<rparr>)"
    by blast
  from T2 [THEN conjunct2, THEN conjunct2, THEN conjunct2, THEN conjunct2, THEN conjunct2,
      THEN conjunct1]
  obtain acc err s2 where
    p': "processBatch ?W ?s1 mixedBatch = Inr ((acc, err), s2)"
    and f2: "\<forall>t more. streamLoop ?W ?s1 t (RecvBatch mixedBatch # more)
                  = streamLoop ?W
                      (s2\<lparr>srv_logger := srv_logger s2 @
                           [case err of Some e \<Rightarrow> ''failed to process batch''
                            | None \<Rightarrow> ''processed batch'']\<rparr>)
                      (t + acc) more"
    by blast
  from p p' have acc: "acc = 2"
    and s2: "store s2 = (0, decodeConnections mixedBatch, decodeRequests mixedBatch)"
    by (simp_all add: len)
  have "streamLoop ?W ?s1 0 [RecvBatch mixedBatch]
          = streamLoop ?W (s2\<lparr>srv_logger := srv_logger s2 @
                           [case err of Some e \<Rightarrow> ''failed to process batch''
                            | None \<Rightarrow> ''processed batch'']\<rparr>) (0 + acc) []"
    using f2 by blast
  then have "\<exists>s'. streamLoop ?W ?s1 0 [RecvBatch mixedBatch] = Inr (SendAndClose 2, s')
               \<and> store s' = (0, decodeConnections mixedBatch, decodeRequests mixedBatch)"
    using acc s2 by simp
  then have f: "\<exists>s'. StreamEvents ?W ?s0 [RecvBatch mixedBatch, RecvBatch mixedBatch]
              = Inr (SendAndClose 2, s')
          \<and> store s' = (0, decodeConnections mixedBatch, decodeRequests mixedBatch)"
    unfolding StreamEvents_def f1 .
  show ?thesis
    by (intro conjI) (rule wf a1 a2 b d g f)+
qed

section \<open>Dependency computer: self-loops and unnamed services\<close>

lemma update_set_subset: "set (AList.update k v al) \<subseteq> insert (k, v) (set al)"
  by (induction al) auto

lemma validEdges_update:
  assumes "validEdges ds" and "la_parent acc \<noteq> []" and "la_child acc \<noteq> []"
    and "la_parent acc \<noteq> la_child acc"
  shows "validEdges (AList.update key acc ds)"
  using assms update_set_subset [of key acc ds] unfolding validEdges_def by blast

lemma validEdges_lookup:
  assumes "validEdges ds" and "map_of ds key = Some acc"
  shows "la_parent acc \<noteq> [] \<and> la_child acc \<noteq> [] \<and> la_parent acc \<noteq> la_child acc"
  using assms map_of_SomeD [of ds key acc] unfolding validEdges_def by blast

lemma addConnectionEvent_skips:
  assumes "ep_Service (ce_Source ev) = ep_Service (ce_Destination ev)
           \<or> ep_Service (ce_Source ev) = [] \<or> ep_Service (ce_Destination ev) = []"
  shows "addConnectionEvent ds ev = ds"
  using assms by (auto simp: addConnectionEvent_def Let_def)

lemma addHTTPRequestEvent_skips:
  assumes "ep_Service (he_Source ev) = ep_Service (he_Destination ev)
           \<or> ep_Service (he_Source ev) = [] \<or> ep_Service (he_Destination ev) = []"
  shows "addHTTPRequestEvent ds ev = ds"
  using assms by (auto simp: addHTTPRequestEvent_def Let_def)

lemma addConnectionEvent_valid:
  assumes v: "validEdges ds"
  shows "validEdges (addConnectionEvent ds ev)"
proof (cases "ep_Service (ce_Source ev) = [] \<or> ep_Service (ce_Destination ev) = []
              \<or> ep_Service (ce_Source ev) = ep_Service (ce_Destination ev)")
  case True
  then show ?thesis using v by (simp add: addConnectionEvent_def Let_def)
next
  case False
  let ?src = "ep_Service (ce_Source ev)" and ?dst = "ep_Service (ce_Destination ev)"
  let ?key = "?src @ ''->'' @ ?dst"
  define acc where "acc = (case map_of ds ?key of
                        Some acc \<Rightarrow> acc
                      | None \<Rightarrow> \<lparr>la_parent = ?src, la_child = ?dst, la_callCount = 0,
                                  la_errorCount = 0, la_latencies = []\<rparr>)"
  have g: "la_parent acc \<noteq> [] \<and> la_child acc \<noteq> [] \<and> la_parent acc \<noteq> la_child acc"
  proof (cases "map_of ds ?key")
    case None
    then show ?thesis using False by (simp add: acc_def)
  next
    case (Some a)
    then show ?thesis using validEdges_lookup [OF v Some] by (simp add: acc_def)
  qed
  define acc2 where "acc2 = (if ce_DurationNs ev > 0
       then acc\<lparr>la_callCount := la_callCount acc + 1\<rparr>
              \<lparr>la_latencies := la_latencies (acc\<lparr>la_callCount := la_callCount acc + 1\<rparr>)
                                @ [ce_DurationNs ev]\<rparr>
       else acc\<lparr>la_callCount := la_callCount acc + 1\<rparr>)"
  have g2: "la_parent acc2 \<noteq> []" "la_child acc2 \<noteq> []" "la_parent acc2 \<noteq> la_child acc2"
    using g by (simp_all add: acc2_def)
  have "addConnectionEvent ds ev = AList.update ?key acc2 ds"
    using False by (simp add: addConnectionEvent_def Let_def acc_def acc2_def)
  then show ?thesis using validEdges_update [OF v g2] by simp
qed

lemma addHTTPRequestEvent_valid:
  assumes v: "validEdges ds"
  shows "validEdges (addHTTPRequestEvent ds ev)"
proof (cases "ep_Service (he_Source ev) = [] \<or> ep_Service (he_Destination ev) = []
              \<or> ep_Service (he_Source ev) = ep_Service (he_Destination ev)")
  case True
  then show ?thesis using v by (simp add: addHTTPRequestEvent_def Let_def)
next
  case False
  let ?src = "ep_Service (he_Source ev)" and ?dst = "ep_Service (he_Destination ev)"
  let ?key = "?src @ ''->'' @ ?dst"
  define acc where "acc = (case map_of ds ?key of
                        Some acc \<Rightarrow> acc
                      | None \<Rightarrow> \<lparr>la_parent = ?src, la_child = ?dst, la_callCount = 0,
                                  la_errorCount = 0, la_latencies = []\<rparr>)"
  have g: "la_parent acc \<noteq> [] \<and> la_child acc \<noteq> [] \<and> la_parent acc \<noteq> la_child acc"
  proof (cases "map_of ds ?key")
    case None
    then show ?thesis using False by (simp add: acc_def)
  next
    case (Some a)
    then show ?thesis using validEdges_lookup [OF v Some] by (simp add: acc_def)
  qed
  obtain acc3 where u: "addHTTPRequestEvent ds ev = AList.update ?key acc3 ds"
    and p: "la_parent acc3 = la_parent acc" and c: "la_child acc3 = la_child acc"
    using False by (simp add: addHTTPRequestEvent_def Let_def acc_def)
  have g3: "la_parent acc3 \<noteq> []" "la_child acc3 \<noteq> []" "la_parent acc3 \<noteq> la_child acc3"
    using g p c by simp_all
  show ?thesis unfolding u by (rule validEdges_update [OF v g3])
qed

lemma foldl_addConnectionEvent_valid:
  "validEdges ds \<Longrightarrow> validEdges (foldl addConnectionEvent ds evs)"
  by (induction evs arbitrary: ds) (simp_all add: addConnectionEvent_valid)

lemma foldl_addHTTPRequestEvent_valid:
  "validEdges ds \<Longrightarrow> validEdges (foldl addHTTPRequestEvent ds evs)"
  by (induction evs arbitrary: ds) (simp_all add: addHTTPRequestEvent_valid)

lemma foldl_addConnectionEvent_skips:
  "\<forall>ev \<in> set evs. ep_Service (ce_Source ev) = ep_Service (ce_Destination ev) \<Longrightarrow>
     foldl addConnectionEvent ds evs = ds"
  by (induction evs arbitrary: ds) (simp_all add: addConnectionEvent_skips)

lemma foldl_addHTTPRequestEvent_skips:
  "\<forall>ev \<in> set evs. ep_Service (he_Source ev) = ep_Service (he_Destination ev) \<Longrightarrow>
     foldl addHTTPRequestEvent ds evs = ds"
  by (induction evs arbitrary: ds) (simp_all add: addHTTPRequestEvent_skips)

lemma compute_deps_valid:
  "validEdges
     (case reqsResult of
        Inl err \<Rightarrow> (case connsResult of Inl err \<Rightarrow> [] | Inr conns \<Rightarrow> foldl addConnectionEvent [] conns)
      | Inr reqs \<Rightarrow> foldl addHTTPRequestEvent
           (case connsResult of Inl err \<Rightarrow> [] | Inr conns \<Rightarrow> foldl addConnectionEvent [] conns) reqs)"
proof -
  have e: "validEdges []" by (simp add: validEdges_def)
  have c: "validEdges (case connsResult of Inl err \<Rightarrow> [] | Inr conns \<Rightarrow> foldl addConnectionEvent [] conns)"
    using e by (cases connsResult) (simp_all add: foldl_addConnectionEvent_valid)
  then show ?thesis
    by (cases reqsResult) (simp_all add: foldl_addHTTPRequestEvent_valid)
qed

text \<open>
  Claim C7. Every link one cycle of the dependency computer builds has a named parent and a
  named child that differ. An event whose source service equals its destination service,
  or with either of them empty, leaves the accumulators as they are, whether it is a
  connection or a request event. Events that all have equal source and destination
  services produce no link at all.
\<close>

theorem no_self_or_unnamed_edges:
  "(\<forall>l \<in> set (compute connsResult reqsResult).
       dl_Parent l \<noteq> [] \<and> dl_Child l \<noteq> [] \<and> dl_Parent l \<noteq> dl_Child l)
   \<and> (ep_Service (ce_Source cev) = ep_Service (ce_Destination cev)
        \<or> ep_Service (ce_Source cev) = [] \<or> ep_Service (ce_Destination cev) = []
       \<longrightarrow> addConnectionEvent ds cev = ds)
   \<and> (ep_Service (he_Source hev) = ep_Service (he_Destination hev)
        \<or> ep_Service (he_Source hev) = [] \<or> ep_Service (he_Destination hev) = []
       \<longrightarrow> addHTTPRequestEvent ds hev = ds)
   \<and> ((\<forall>ev \<in> set conns. ep_Service (ce_Source ev) = ep_Service (ce_Destination ev))
        \<and> (\<forall>ev \<in> set reqs. ep_Service (he_Source ev) = ep_Service (he_Destination ev))
       \<longrightarrow> compute (Inr conns) (Inr reqs) = [])"
proof (intro conjI ballI impI)
  fix l
  assume "l \<in> set (compute connsResult reqsResult)"
  then obtain key acc where
    m: "(key, acc) \<in> set (case reqsResult of
        Inl err \<Rightarrow> (case connsResult of Inl err \<Rightarrow> [] | Inr conns \<Rightarrow> foldl addConnectionEvent [] conns)
      | Inr reqs \<Rightarrow> foldl addHTTPRequestEvent
           (case connsResult of Inl err \<Rightarrow> [] | Inr conns \<Rightarrow> foldl addConnectionEvent [] conns) reqs)"
    and l: "dl_Parent l = la_parent acc" "dl_Child l = la_child acc"
    by (auto simp: compute_def buildLinks_def Let_def)
  from compute_deps_valid m
  have "la_parent acc \<noteq> [] \<and> la_child acc \<noteq> [] \<and> la_parent acc \<noteq> la_child acc"
    unfolding validEdges_def by blast
  then show "dl_Parent l \<noteq> []" "dl_Child l \<noteq> []" "dl_Parent l \<noteq> dl_Child l"
    using l by simp_all
next
  assume "ep_Service (ce_Source cev) = ep_Service (ce_Destination cev)
        \<or> ep_Service (ce_Source cev) = [] \<or> ep_Service (ce_Destination cev) = []"
  then show "addConnectionEvent ds cev = ds" by (rule addConnectionEvent_skips)
next
  assume "ep_Service (he_Source hev) = ep_Service (he_Destination hev)
        \<or> ep_Service (he_Source hev) = [] \<or> ep_Service (he_Destination hev) = []"
  then show "addHTTPRequestEvent ds hev = ds" by (rule addHTTPRequestEvent_skips)
next
  assume h: "(\<forall>ev \<in> set conns. ep_Service (ce_Source ev) = ep_Service (ce_Destination ev))
        \<and> (\<forall>ev \<in> set reqs. ep_Service (he_Source ev) = ep_Service (he_Destination ev))"
  then show "compute (Inr conns) (Inr reqs) = []"
    by (simp add: compute_def buildLinks_def foldl_addConnectionEvent_skips
          foldl_addHTTPRequestEvent_skips)
qed


lemma sample_services:
  "ep_Service (ce_Source (sampleConn src dst d)) = src"
  "ep_Service (ce_Destination (sampleConn src dst d)) = dst"
  "ep_Service (he_Source (sampleReq src dst st lat)) = src"
  "ep_Service (he_Destination (sampleReq src dst st lat)) = dst"
  by (simp_all add: sampleConn_def sampleReq_def sampleEndpoint_def)

theorem no_self_or_unnamed_edges_witness:
  "compute (Inr [sampleConn ''web'' ''web'' 1, sampleConn ''a'' ''b'' 5])
           (Inr [sampleReq ''web'' ''web'' 200 3])
     = [\<lparr>dl_Parent = ''a'', dl_Child = ''b'', dl_CallCount = 1, dl_ErrorCount = 0,
         dl_P99LatencyNs = 5\<rparr>]
   \<and> addConnectionEvent [] (sampleConn ''web'' ''web'' 1) = []
   \<and> addHTTPRequestEvent [] (sampleReq ''web'' ''web'' 200 3) = []
   \<and> compute (Inr [sampleConn ''web'' ''web'' 1, sampleConn ''web'' ''web'' 2])
              (Inr [sampleReq ''web'' ''web'' 200 3]) = []"
proof -
  note t = no_self_or_unnamed_edges [of
      "Inr [sampleConn ''web'' ''web'' 1, sampleConn ''a'' ''b'' 5]"
      "Inr [sampleReq ''web'' ''web'' 200 3]"
      "sampleConn ''web'' ''web'' 1" "[]" "sampleReq ''web'' ''web'' 200 3"
      "[sampleConn ''web'' ''web'' 1, sampleConn ''web'' ''web'' 2]"
      "[sampleReq ''web'' ''web'' 200 3]"]
  have a: "compute (Inr [sampleConn ''web'' ''web'' 1, sampleConn ''a'' ''b'' 5])
           (Inr [sampleReq ''web'' ''web'' 200 3])
     = [\<lparr>dl_Parent = ''a'', dl_Child = ''b'', dl_CallCount = 1, dl_ErrorCount = 0,
         dl_P99LatencyNs = 5\<rparr>]"
    by (simp add: compute_def buildLinks_def addConnectionEvent_def addHTTPRequestEvent_def
          sample_services Let_def computeP99_def sampleConn_def sampleEndpoint_def)
  have b: "addConnectionEvent [] (sampleConn ''web'' ''web'' 1) = []"
    using t by (simp add: sample_services)
  have c: "addHTTPRequestEvent [] (sampleReq ''web'' ''web'' 200 3) = []"
    using t by (simp add: sample_services)
  have d: "compute (Inr [sampleConn ''web'' ''web'' 1, sampleConn ''web'' ''web'' 2])
              (Inr [sampleReq ''web'' ''web'' 200 3]) = []"
    using t by (simp add: sample_services)
  show ?thesis using a b c d by simp
qed
section \<open>Dependency computer: the P99 index\<close>

text \<open>
  Claim C3. The comment in \<open>computeP99\<close> and the specification give the index as
  \<open>ceil(0.99 * n) - 1\<close>; the code computes \<open>int(float64(n)*0.99+0.5) - 1\<close>, which rounds
  to nearest. The two differ whenever the fraction of \<open>0.99 * n\<close> lies strictly between 0
  and one half. For the 51 samples 1..51 the code returns the sample at index 49, which is
  50, where the index of the claim is 50 and its sample 51. The two agree on the 100
  samples 1..100 (99) and on the empty list (0).
\<close>

theorem computeP99_rounds_to_nearest:
  "computeP99 (map of_nat [1..<52]) = 50
   \<and> ceilP99Index 51 = 50
   \<and> sort (map of_nat [1..<52] :: 64 word list) ! ceilP99Index 51 = 51
   \<and> computeP99 (map of_nat [1..<101]) = 99
   \<and> computeP99 [] = 0"
  by (simp add: computeP99_def ceilP99Index_def upt_rec)

section \<open>Identity cache: stripping the ReplicaSet hash\<close>

text \<open>
  Claim C9. \<open>stripReplicaSetHash\<close> checks the length of the part after the last dash and
  nothing else, although its comment says it verifies that the part is alphanumeric. The
  ReplicaSet name \<open>web-v1.2.3\<close> ends in a part of six characters with dots in it, which is
  no hash suffix; the code strips it all the same, and a pod owned by that ReplicaSet, which
  no Deployment owns, resolves to the workload \<open>web\<close>.
\<close>

theorem stripReplicaSetHash_ignores_characters:
  "stripReplicaSetHash ''web-v1.2.3'' = ''web''
   \<and> \<not> looksLikeHash ''v1.2.3''
   \<and> resolveWorkload (\<lambda>ns n. Inr [])
        \<lparr>pod_Name = ''web-v1.2.3-x7k2p'', pod_Namespace = ''default'',
         pod_OwnerReferences = [\<lparr>or_Kind = ''ReplicaSet'', or_Name = ''web-v1.2.3''\<rparr>]\<rparr>
       = (''web'', ''ReplicaSet'')"
  by (simp add: stripReplicaSetHash_def LastIndex_def looksLikeHash_def isAlphanumeric_def
        resolveWorkload_def resolveReplicaSetOwner_def)

section \<open>Probe loader: decoding the method byte\<close>

text \<open>
  Claim C10. \<open>httpEventToModel\<close> gives every raw record a method: the bytes 0 to 7 decode to
  UNKNOWN, GET, POST, PUT, DELETE, PATCH, HEAD and OPTIONS, and every other byte decodes to
  UNKNOWN. The function has no failing branch.
\<close>

theorem httpEventToModel_method_total:
  "he_Method (httpEventToModel he) =
     (if hev_Method he = 0 then ''UNKNOWN''
      else if hev_Method he = 1 then ''GET''
      else if hev_Method he = 2 then ''POST''
      else if hev_Method he = 3 then ''PUT''
      else if hev_Method he = 4 then ''DELETE''
      else if hev_Method he = 5 then ''PATCH''
      else if hev_Method he = 6 then ''HEAD''
      else if hev_Method he = 7 then ''OPTIONS''
      else ''UNKNOWN'')"
  by (simp add: httpEventToModel_def httpMethods_def Let_def)

section \<open>Aggregator: the percentile estimate\<close>

subsection \<open>Roundings to nearest\<close>













subsection \<open>Bucket bounds\<close>










subsection \<open>Interpolation\<close>





subsection \<open>The loop over the counts\<close>






subsection \<open>The histogram of a list of samples\<close>












subsection \<open>The estimate at some samples\<close>





















subsection \<open>Bounds and monotonicity\<close>




end
